theory Spec2Isabelle
  imports Main "HOL-Library.AList"
begin

section \<open>Pattern normalizer (regex_to_NFA.py)\<close>

text \<open>
  Python strings are modelled as \<open>string\<close> (a list of characters). A Python list that is
  used as a stack (\<open>append\<close>/\<open>pop\<close> at the end) is modelled as a HOL list whose head is
  the top of the stack, so \<open>st[-1]\<close> is the head, \<open>st.pop()\<close> removes the head and
  \<open>reversed(st)\<close> is the list itself.
\<close>

subsection \<open>add_concat\<close>

text \<open>
  One iteration of the \<open>for c in r\<close> loop of \<open>add_concat\<close>: \<open>prev\<close> is \<open>None\<close> before the
  first character and the previous character afterwards (a one-character string is
  truthy in Python).
\<close>

fun add_concat_loop :: "string \<Rightarrow> char option \<Rightarrow> string \<Rightarrow> string" where
  "add_concat_loop out prev [] = out"
| "add_concat_loop out prev (c # r) =
     add_concat_loop
       ((if (case prev of None \<Rightarrow> False | Some p \<Rightarrow> p \<notin> set ''|('') \<and> c \<notin> set ''|)*+?''
         then out @ ''.'' else out) @ [c])
       (Some c) r"

definition add_concat :: "string \<Rightarrow> string" where
  "add_concat r = add_concat_loop [] None r"

subsection \<open>to_postfix\<close>

text \<open>The precedence table \<open>prec\<close>; \<open>None\<close> is "not a key of the dict".\<close>

definition prec :: "char \<Rightarrow> nat option" where
  "prec c =
     (if c = CHR ''*'' then Some 3
      else if c = CHR ''+'' then Some 3
      else if c = CHR ''?'' then Some 3
      else if c = CHR ''.'' then Some 2
      else if c = CHR ''|'' then Some 1
      else None)"

text \<open>\<open>prec.get(x, 0)\<close>\<close>

definition prec_get0 :: "char \<Rightarrow> nat" where
  "prec_get0 x = (case prec x of None \<Rightarrow> 0 | Some n \<Rightarrow> n)"

text \<open>\<open>while st and st[-1] != '(': out.append(st.pop())\<close>\<close>

fun pop_to_paren :: "string \<Rightarrow> string \<Rightarrow> string \<times> string" where
  "pop_to_paren out [] = (out, [])"
| "pop_to_paren out (x # st) =
     (if x \<noteq> CHR ''('' then pop_to_paren (out @ [x]) st else (out, x # st))"

text \<open>\<open>while st and st[-1] != '(' and prec.get(st[-1], 0) >= prec[c]: out.append(st.pop())\<close>\<close>

fun pop_prec :: "nat \<Rightarrow> string \<Rightarrow> string \<Rightarrow> string \<times> string" where
  "pop_prec pc out [] = (out, [])"
| "pop_prec pc out (x # st) =
     (if x \<noteq> CHR ''('' \<and> prec_get0 x \<ge> pc then pop_prec pc (out @ [x]) st
      else (out, x # st))"

text \<open>
  The body of the \<open>for c in r\<close> loop of \<open>to_postfix\<close> on the pair \<open>(out, st)\<close>. The line
  \<open>st.pop() if st else None\<close> drops the top of the stack when there is one and does
  nothing otherwise.
\<close>

definition to_postfix_step :: "char \<Rightarrow> string \<times> string \<Rightarrow> string \<times> string" where
  "to_postfix_step c os =
     (case os of (out, st) \<Rightarrow>
        if c = CHR ''('' then (out, c # st)
        else if c = CHR '')'' then
          (case pop_to_paren out st of (out', st') \<Rightarrow>
             (out', case st' of [] \<Rightarrow> [] | _ # st'' \<Rightarrow> st''))
        else (case prec c of
                Some pc \<Rightarrow> (case pop_prec pc out st of (out', st') \<Rightarrow> (out', c # st'))
              | None \<Rightarrow> (out @ [c], st)))"

fun to_postfix_loop :: "string \<times> string \<Rightarrow> string \<Rightarrow> string \<times> string" where
  "to_postfix_loop os [] = os"
| "to_postfix_loop os (c # r) = to_postfix_loop (to_postfix_step c os) r"

text \<open>\<open>out.extend(reversed(st)); return ''.join(out)\<close>\<close>

definition to_postfix :: "string \<Rightarrow> string" where
  "to_postfix r = (case to_postfix_loop ([], []) r of (out, st) \<Rightarrow> out @ st)"

section \<open>NFA builder and NFA simulation (regex_to_NFA.py)\<close>

text \<open>
  States are the integers drawn from \<open>count()\<close>. A transition label is \<open>None\<close> for
  \<open>EPS\<close> and \<open>Some c\<close> for the character \<open>c\<close>. The transition table is a
  \<open>defaultdict(list)\<close> from a state to its list of \<open>(label, target)\<close> pairs; it is
  modelled as an association list in insertion order, looked up with \<open>map_of\<close>. A
  fragment is the triple \<open>(start, accept set, transition table)\<close>. Where the code
  iterates over a Python set of states, the model enumerates it in ascending order.
\<close>

type_synonym edge = "char option \<times> nat"
type_synonym trans = "(nat \<times> edge list) list"
type_synonym frag = "nat \<times> nat set \<times> trans"

datatype error = IndexError

text \<open>\<open>tr.get(s, [])\<close>\<close>

definition tr_get :: "trans \<Rightarrow> nat \<Rightarrow> edge list" where
  "tr_get tr s = (case map_of tr s of None \<Rightarrow> [] | Some es \<Rightarrow> es)"

text \<open>
  \<open>tr[k].extend(v)\<close> (and \<open>tr[k].append(x)\<close> with \<open>v = [x]\<close>) on a
  \<open>defaultdict(list)\<close>: a missing key is created with the empty list first.
\<close>

definition dd_extend :: "nat \<Rightarrow> edge list \<Rightarrow> trans \<Rightarrow> trans" where
  "dd_extend k v tr = AList.map_default k v (\<lambda>es. es @ v) tr"

text \<open>\<open>for k, v in items: tr[k].extend(v)\<close>\<close>

fun dd_extend_items :: "trans \<Rightarrow> trans \<Rightarrow> trans" where
  "dd_extend_items tr [] = tr"
| "dd_extend_items tr ((k, v) # items) = dd_extend_items (dd_extend k v tr) items"

text \<open>\<open>for a in acc: tr[a].extend(v)\<close>\<close>

fun dd_extend_each :: "nat list \<Rightarrow> edge list \<Rightarrow> trans \<Rightarrow> trans" where
  "dd_extend_each [] v tr = tr"
| "dd_extend_each (a # as) v tr = dd_extend_each as v (dd_extend a v tr)"

text \<open>
  The body of the \<open>for t in postfix\<close> loop of \<open>build\<close>, on the pair of the counter
  \<open>gen\<close> (its next value) and the operand stack. \<open>stack.pop()\<close> on an empty stack raises
  \<open>IndexError\<close>.
\<close>

definition build_step :: "char \<Rightarrow> nat \<times> frag list \<Rightarrow> error + (nat \<times> frag list)" where
  "build_step t ns =
     (case ns of (n, stack) \<Rightarrow>
        if t = CHR ''.'' then
          (case stack of
             s2 # s1 # rest \<Rightarrow>
               (case s1 of (st1, acc1, tr1) \<Rightarrow>
                case s2 of (st2, acc2, tr2) \<Rightarrow>
                  let tr1 = dd_extend_each (sorted_list_of_set acc1) [(None, st2)] tr1;
                      tr1 = dd_extend_items tr1 tr2
                  in Inr (n, (st1, acc2, tr1) # rest))
           | _ \<Rightarrow> Inl IndexError)
        else if t = CHR ''|'' then
          (case stack of
             s2 # s1 # rest \<Rightarrow>
               (case s1 of (st1, acc1, tr1) \<Rightarrow>
                case s2 of (st2, acc2, tr2) \<Rightarrow>
                  let s = n; f = n + 1;
                      tr = dd_extend_items [] tr1;
                      tr = dd_extend_items tr tr2;
                      tr = dd_extend s [(None, st1), (None, st2)] tr;
                      tr = dd_extend_each (sorted_list_of_set (acc1 \<union> acc2)) [(None, f)] tr
                  in Inr (n + 2, (s, {f}, tr) # rest))
           | _ \<Rightarrow> Inl IndexError)
        else if t \<in> set ''*+?'' then
          (case stack of
             [] \<Rightarrow> Inl IndexError
           | (st, acc, tr0) # rest \<Rightarrow>
               let s = n; f = n + 1;
                   tr = dd_extend_items [] tr0;
                   tr = dd_extend s (if t = CHR ''?'' then [(None, st), (None, f)]
                                     else [(None, st)]) tr;
                   tr = dd_extend_each (sorted_list_of_set acc)
                          (if t \<noteq> CHR ''?'' then [(None, st), (None, f)] else [(None, f)]) tr;
                   tr = (if t \<noteq> CHR ''?'' then dd_extend s [(None, f)] tr else tr)
               in Inr (n + 2, (s, {f}, tr) # rest))
        else
          (let s = n; f = n + 1
           in Inr (n + 2, (s, {f}, [(s, [(Some t, f)])]) # stack)))"

fun build_loop :: "nat \<times> frag list \<Rightarrow> string \<Rightarrow> error + (nat \<times> frag list)" where
  "build_loop ns [] = Inr ns"
| "build_loop ns (t # postfix) =
     (case build_step t ns of Inl e \<Rightarrow> Inl e | Inr ns' \<Rightarrow> build_loop ns' postfix)"

text \<open>\<open>return stack[0]\<close>: the bottom of the stack, \<open>IndexError\<close> when it is empty.\<close>

definition build :: "string \<Rightarrow> error + frag" where
  "build postfix =
     (case build_loop (0, []) postfix of
        Inl e \<Rightarrow> Inl e
      | Inr (n, stack) \<Rightarrow> (case stack of [] \<Rightarrow> Inl IndexError | _ \<Rightarrow> Inr (last stack)))"

text \<open>The pipeline of the main block: \<open>build(to_postfix(add_concat(regex)))\<close>.\<close>

definition compile :: "string \<Rightarrow> error + frag" where
  "compile regex = build (to_postfix (add_concat regex))"

subsection \<open>eps_closure, move, matches\<close>

text \<open>
  The \<open>for sym, d in tr.get(s, [])\<close> loop of \<open>eps_closure\<close> on the pair \<open>(res, stk)\<close>.
\<close>

fun eps_scan :: "edge list \<Rightarrow> nat set \<times> nat list \<Rightarrow> nat set \<times> nat list" where
  "eps_scan [] rs = rs"
| "eps_scan ((lab, d) # es) (res, stk) =
     (if lab = None \<and> d \<notin> res then eps_scan es (insert d res, d # stk)
      else eps_scan es (res, stk))"

text \<open>Every target state that occurs in the table.\<close>

definition tr_targets :: "trans \<Rightarrow> nat set" where
  "tr_targets tr = (\<Union>(k, es) \<in> set tr. snd ` set es)"

lemma finite_tr_targets: "finite (tr_targets tr)"
  by (auto simp: tr_targets_def)

lemma tr_get_targets: "snd ` set (tr_get tr s) \<subseteq> tr_targets tr"
proof (cases "map_of tr s")
  case None
  then show ?thesis by (simp add: tr_get_def)
next
  case (Some es)
  then have "(s, es) \<in> set tr" by (rule map_of_SomeD)
  then have "snd ` set es \<subseteq> tr_targets tr"
    unfolding tr_targets_def by blast
  then show ?thesis using Some by (simp add: tr_get_def)
qed

lemma eps_scan_fst:
  "fst (eps_scan es (res, stk)) = res \<union> {d. (None, d) \<in> set es}"
  by (induction es arbitrary: res stk) (auto split: if_splits)

lemma eps_scan_snd:
  "set (snd (eps_scan es (res, stk))) = set stk \<union> ({d. (None, d) \<in> set es} - res)"
  by (induction es arbitrary: res stk) (auto split: if_splits)

lemma eps_scan_same:
  "\<forall>d. (None, d) \<in> set es \<longrightarrow> d \<in> res \<Longrightarrow> eps_scan es (res, stk) = (res, stk)"
proof (induction es)
  case Nil
  show ?case by simp
next
  case (Cons e es)
  obtain lab d where e: "e = (lab, d)" by (cases e)
  have "\<not> (lab = None \<and> d \<notin> res)" using Cons.prems e by auto
  moreover have "eps_scan es (res, stk) = (res, stk)" using Cons by simp
  ultimately show ?case using e by (cases lab) auto
qed

lemma eps_scan_progress:
  assumes "eps_scan es (res, stk) = (res', stk')"
  shows "(res' = res \<and> stk' = stk) \<or> (res \<subset> res' \<and> res' \<subseteq> res \<union> snd ` set es)"
proof (cases "{d. (None, d) \<in> set es} \<subseteq> res")
  case True
  then have "eps_scan es (res, stk) = (res, stk)"
    by (intro eps_scan_same) blast
  then show ?thesis using assms by simp
next
  case False
  have "res' = res \<union> {d. (None, d) \<in> set es}"
    using eps_scan_fst [of es res stk] assms by simp
  then show ?thesis using False by force
qed

text \<open>The \<open>while stk\<close> loop of \<open>eps_closure\<close>.\<close>

function eps_loop :: "trans \<Rightarrow> nat set \<Rightarrow> nat list \<Rightarrow> nat set" where
  "eps_loop tr res [] = res"
| "eps_loop tr res (s # stk) =
     (case eps_scan (tr_get tr s) (res, stk) of (res', stk') \<Rightarrow> eps_loop tr res' stk')"
  by pat_completeness auto
termination
proof (relation "inv_image (less_than <*lex*> less_than)
                   (\<lambda>(tr, res, stk). (card (tr_targets tr - res), length stk))")
  show "wf (inv_image (less_than <*lex*> less_than)
              (\<lambda>(tr, res, stk). (card (tr_targets tr - res), length stk)))"
    by (intro wf_inv_image wf_lex_prod wf_less_than)
next
  fix tr :: trans and res :: "nat set" and s :: nat and stk :: "nat list"
    and res' :: "nat set" and stk' :: "nat list"
  assume "(res', stk') = eps_scan (tr_get tr s) (res, stk)"
  then have scan: "eps_scan (tr_get tr s) (res, stk) = (res', stk')" by simp
  from eps_scan_progress [OF scan]
  show "((tr, res', stk'), (tr, res, s # stk))
          \<in> inv_image (less_than <*lex*> less_than)
              (\<lambda>(tr, res, stk). (card (tr_targets tr - res), length stk))"
  proof
    assume "res' = res \<and> stk' = stk"
    then show ?thesis by simp
  next
    assume grow: "res \<subset> res' \<and> res' \<subseteq> res \<union> snd ` set (tr_get tr s)"
    then have "res' \<subseteq> res \<union> tr_targets tr"
      using tr_get_targets [of tr s] by blast
    with grow have "tr_targets tr - res' \<subset> tr_targets tr - res" by blast
    then have "card (tr_targets tr - res') < card (tr_targets tr - res)"
      by (intro psubset_card_mono) (auto simp: finite_tr_targets)
    then show ?thesis by simp
  qed
qed

text \<open>\<open>res, stk = set(states), list(states)\<close>, then the loop.\<close>

definition eps_closure :: "nat set \<Rightarrow> trans \<Rightarrow> nat set" where
  "eps_closure states tr = eps_loop tr states (rev (sorted_list_of_set states))"

text \<open>\<open>{d for s in states for sym, d in tr.get(s, []) if sym == ch}\<close>\<close>

definition move :: "nat set \<Rightarrow> char \<Rightarrow> trans \<Rightarrow> nat set" where
  "move states ch tr =
     (\<Union>s \<in> states. snd ` {e \<in> set (tr_get tr s). fst e = Some ch})"

text \<open>The \<open>for ch in s\<close> loop of \<open>matches\<close> and its final test.\<close>

fun matches_loop :: "nat set \<Rightarrow> trans \<Rightarrow> nat set \<Rightarrow> string \<Rightarrow> bool" where
  "matches_loop acc tr cur [] = (cur \<inter> acc \<noteq> {})"
| "matches_loop acc tr cur (ch # s) =
     (let cur = eps_closure (move cur ch tr) tr
      in if cur = {} then False else matches_loop acc tr cur s)"

definition matches :: "frag \<Rightarrow> string \<Rightarrow> bool" where
  "matches nfa s =
     (case nfa of (st, acc, tr) \<Rightarrow> matches_loop acc tr (eps_closure {st} tr) s)"

section \<open>NFA and DFA classes, subset construction (nfa_to_dfa.py)\<close>

text \<open>
  A symbol is a Python string; the empty string labels the epsilon transitions and the
  characters of an input string are its one-character substrings. The transition table
  of an NFA is a dict from a state to a dict from a symbol to a set of states, the one of
  a DFA a dict from a state to a dict from a symbol to a state; dicts are association
  lists in insertion order. The alphabet and the target sets of the NFA, which the code
  only iterates over and tests for membership, are the lists of their elements in
  iteration order. A DFA state is a \<open>frozenset\<close> of NFA states, modelled as a HOL set, so
  that two DFA states are equal exactly when they have the same elements.
\<close>

record 's NFA =
  states :: "'s set"
  alphabet :: "string list"
  transitions :: "('s \<times> (string \<times> 's list) list) list"
  start_state :: 's
  accept_states :: "'s set"

record 's DFA =
  states :: "'s set set"
  alphabet :: "string list"
  transitions :: "('s set \<times> (string \<times> 's set) list) list"
  start_state :: "'s set"
  accept_states :: "'s set set"

text \<open>\<open>transitions.get(state, {})\<close>\<close>

definition row_get :: "('k \<times> ('a \<times> 'b) list) list \<Rightarrow> 'k \<Rightarrow> ('a \<times> 'b) list" where
  "row_get trs state = (case map_of trs state of None \<Rightarrow> [] | Some row \<Rightarrow> row)"

subsection \<open>NFA.epsilon_closure\<close>

text \<open>
  The states that \<open>for next_state in self.transitions[state]['']\<close> runs over, none when
  \<open>''\<close> is not a key of \<open>self.transitions.get(state, {})\<close>.
\<close>

definition eps_targets :: "('s \<times> (string \<times> 's list) list) list \<Rightarrow> 's \<Rightarrow> 's list" where
  "eps_targets trs state =
     (case map_of (row_get trs state) [] of None \<Rightarrow> [] | Some targets \<Rightarrow> targets)"

fun closure_scan :: "'s list \<Rightarrow> 's set \<times> 's list \<Rightarrow> 's set \<times> 's list" where
  "closure_scan [] cs = cs"
| "closure_scan (next_state # ns) (closure, stack) =
     (if next_state \<notin> closure
      then closure_scan ns (insert next_state closure, next_state # stack)
      else closure_scan ns (closure, stack))"

text \<open>Every state that occurs as a target in the table.\<close>

definition nfa_targets :: "('s \<times> (string \<times> 's list) list) list \<Rightarrow> 's set" where
  "nfa_targets trs = (\<Union>(k, row) \<in> set trs. \<Union>(a, targets) \<in> set row. set targets)"

lemma finite_nfa_targets: "finite (nfa_targets trs)"
  by (auto simp: nfa_targets_def)

lemma row_get_in: "(a, targets) \<in> set (row_get trs state) \<Longrightarrow> set targets \<subseteq> nfa_targets trs"
proof (cases "map_of trs state")
  case None
  assume "(a, targets) \<in> set (row_get trs state)"
  then show ?thesis using None by (simp add: row_get_def)
next
  case (Some row)
  assume "(a, targets) \<in> set (row_get trs state)"
  then have "(a, targets) \<in> set row" using Some by (simp add: row_get_def)
  moreover have "(state, row) \<in> set trs" using Some by (rule map_of_SomeD)
  ultimately show ?thesis unfolding nfa_targets_def by blast
qed

lemma map_of_row_get:
  "map_of (row_get trs state) a = Some targets \<Longrightarrow> set targets \<subseteq> nfa_targets trs"
  by (blast dest: map_of_SomeD intro: row_get_in [THEN subsetD])

lemma eps_targets_sub: "set (eps_targets trs state) \<subseteq> nfa_targets trs"
proof (cases "map_of (row_get trs state) []")
  case None
  then show ?thesis by (simp add: eps_targets_def)
next
  case (Some targets)
  then show ?thesis using map_of_row_get [OF Some] by (simp add: eps_targets_def)
qed

lemma closure_scan_fst: "fst (closure_scan ns (closure, stack)) = closure \<union> set ns"
  by (induction ns arbitrary: closure stack) (auto split: if_splits)

lemma closure_scan_snd:
  "set (snd (closure_scan ns (closure, stack))) = set stack \<union> (set ns - closure)"
  by (induction ns arbitrary: closure stack) (auto split: if_splits)

lemma closure_scan_same:
  "set ns \<subseteq> closure \<Longrightarrow> closure_scan ns (closure, stack) = (closure, stack)"
  by (induction ns) auto

lemma closure_scan_progress:
  assumes "closure_scan ns (closure, stack) = (closure', stack')"
  shows "(closure' = closure \<and> stack' = stack)
         \<or> (closure \<subset> closure' \<and> closure' \<subseteq> closure \<union> set ns)"
proof (cases "set ns \<subseteq> closure")
  case True
  then show ?thesis using assms by (simp add: closure_scan_same)
next
  case False
  have "closure' = closure \<union> set ns"
    using closure_scan_fst [of ns closure stack] assms by simp
  then show ?thesis using False by blast
qed

text \<open>The \<open>while stack\<close> loop of \<open>epsilon_closure\<close>.\<close>

function epsilon_closure_loop ::
  "('s \<times> (string \<times> 's list) list) list \<Rightarrow> 's set \<Rightarrow> 's list \<Rightarrow> 's set" where
  "epsilon_closure_loop trs closure [] = closure"
| "epsilon_closure_loop trs closure (state # stack) =
     (case closure_scan (eps_targets trs state) (closure, stack) of
        (closure', stack') \<Rightarrow> epsilon_closure_loop trs closure' stack')"
  by pat_completeness auto
termination
proof (relation "inv_image (less_than <*lex*> less_than)
                   (\<lambda>(trs, closure, stack). (card (nfa_targets trs - closure), length stack))")
  show "wf (inv_image (less_than <*lex*> less_than)
              (\<lambda>(trs :: ('s \<times> (string \<times> 's list) list) list, closure, stack :: 's list).
                 (card (nfa_targets trs - closure), length stack)))"
    by (intro wf_inv_image wf_lex_prod wf_less_than)
next
  fix trs :: "('s \<times> (string \<times> 's list) list) list" and closure :: "'s set"
    and state :: 's and stack :: "'s list" and closure' :: "'s set" and stack' :: "'s list"
  assume "(closure', stack') = closure_scan (eps_targets trs state) (closure, stack)"
  then have scan: "closure_scan (eps_targets trs state) (closure, stack) = (closure', stack')"
    by simp
  from closure_scan_progress [OF scan]
  show "((trs, closure', stack'), (trs, closure, state # stack))
          \<in> inv_image (less_than <*lex*> less_than)
              (\<lambda>(trs, closure, stack). (card (nfa_targets trs - closure), length stack))"
  proof
    assume "closure' = closure \<and> stack' = stack"
    then show ?thesis by simp
  next
    assume grow: "closure \<subset> closure' \<and> closure' \<subseteq> closure \<union> set (eps_targets trs state)"
    then have "closure' \<subseteq> closure \<union> nfa_targets trs"
      using eps_targets_sub [of trs state] by blast
    with grow have "nfa_targets trs - closure' \<subset> nfa_targets trs - closure" by blast
    then have "card (nfa_targets trs - closure') < card (nfa_targets trs - closure)"
      by (intro psubset_card_mono) (auto simp: finite_nfa_targets)
    then show ?thesis by simp
  qed
qed

text \<open>\<open>stack = list(state_set); closure = set(state_set)\<close>, then the loop.\<close>

definition epsilon_closure :: "('s::linorder) NFA \<Rightarrow> 's set \<Rightarrow> 's set" where
  "epsilon_closure nfa state_set =
     epsilon_closure_loop (NFA.transitions nfa) state_set (rev (sorted_list_of_set state_set))"

subsection \<open>DFA.accepts\<close>

fun accepts_loop :: "'s DFA \<Rightarrow> 's set \<Rightarrow> string list \<Rightarrow> bool" where
  "accepts_loop dfa current_state [] = (current_state \<in> DFA.accept_states dfa)"
| "accepts_loop dfa current_state (symbol # rest) =
     (if symbol \<notin> set (DFA.alphabet dfa) then False
      else (case map_of (row_get (DFA.transitions dfa) current_state) symbol of
              None \<Rightarrow> False
            | Some next_state \<Rightarrow> accepts_loop dfa next_state rest))"

text \<open>\<open>for symbol in string\<close> runs over the one-character substrings.\<close>

definition accepts :: "'s DFA \<Rightarrow> string \<Rightarrow> bool" where
  "accepts dfa string = accepts_loop dfa (DFA.start_state dfa) (map (\<lambda>c. [c]) string)"

subsection \<open>nfa_to_dfa\<close>

text \<open>
  The value of \<open>next_states\<close> after the two inner loops over \<open>current\<close> and over
  \<open>nfa.transitions[state][symbol]\<close>: the union of the closures of all targets.
\<close>

definition next_states_of :: "('s::linorder) NFA \<Rightarrow> 's set \<Rightarrow> string \<Rightarrow> 's set" where
  "next_states_of nfa current symbol =
     (\<Union>state \<in> current.
        case map_of (row_get (NFA.transitions nfa) state) symbol of
          None \<Rightarrow> {}
        | Some targets \<Rightarrow> (\<Union>target \<in> set targets. epsilon_closure nfa {target}))"

text \<open>
  The \<open>for symbol in nfa.alphabet\<close> loop on the triple
  \<open>(dfa_states, unmarked_states, dfa_transitions)\<close>. The assignment
  \<open>dfa_transitions[current][symbol] = next_states_frozen\<close> updates the row of \<open>current\<close>,
  which exists since the loop is entered after \<open>dfa_transitions[current] = {}\<close>.
\<close>

fun symbol_loop ::
  "('s::linorder) NFA \<Rightarrow> 's set \<Rightarrow> string list
   \<Rightarrow> 's set set \<times> 's set list \<times> ('s set \<times> (string \<times> 's set) list) list
   \<Rightarrow> 's set set \<times> 's set list \<times> ('s set \<times> (string \<times> 's set) list) list" where
  "symbol_loop nfa current [] st = st"
| "symbol_loop nfa current (symbol # symbols) (dfa_states, unmarked_states, dfa_transitions) =
     (let next_states = next_states_of nfa current symbol
      in if next_states \<noteq> {} then
           (let dfa_transitions =
                  AList.update current
                    (AList.update symbol next_states (row_get dfa_transitions current))
                    dfa_transitions
            in if next_states \<notin> dfa_states
               then symbol_loop nfa current symbols
                      (insert next_states dfa_states, next_states # unmarked_states,
                       dfa_transitions)
               else symbol_loop nfa current symbols
                      (dfa_states, unmarked_states, dfa_transitions))
         else symbol_loop nfa current symbols (dfa_states, unmarked_states, dfa_transitions))"

lemma epsilon_closure_loop_bound:
  "epsilon_closure_loop trs closure stack \<subseteq> closure \<union> nfa_targets trs"
proof (induction trs closure stack rule: epsilon_closure_loop.induct)
  case (1 trs closure)
  show ?case by simp
next
  case (2 trs closure state stack)
  obtain closure' stack' where
    sc: "closure_scan (eps_targets trs state) (closure, stack) = (closure', stack')"
    by (cases "closure_scan (eps_targets trs state) (closure, stack)")
  have "closure' = closure \<union> set (eps_targets trs state)"
    using closure_scan_fst [of "eps_targets trs state" closure stack] sc by simp
  then have "closure' \<subseteq> closure \<union> nfa_targets trs"
    using eps_targets_sub [of trs state] by blast
  moreover have "epsilon_closure_loop trs closure' stack' \<subseteq> closure' \<union> nfa_targets trs"
    using "2.IH" [OF sc [symmetric]] .
  ultimately show ?case using sc by auto
qed

lemma next_states_of_bound:
  "next_states_of nfa current symbol \<subseteq> nfa_targets (NFA.transitions nfa)"
proof
  fix x assume "x \<in> next_states_of nfa current symbol"
  then obtain state targets target where
    m: "map_of (row_get (NFA.transitions nfa) state) symbol = Some targets"
    and t: "target \<in> set targets" and x: "x \<in> epsilon_closure nfa {target}"
    by (auto simp: next_states_of_def split: option.splits)
  have "target \<in> nfa_targets (NFA.transitions nfa)"
    using map_of_row_get [OF m] t by blast
  moreover have "x \<in> {target} \<union> nfa_targets (NFA.transitions nfa)"
    using x epsilon_closure_loop_bound [of "NFA.transitions nfa" "{target}"]
    unfolding epsilon_closure_def by blast
  ultimately show "x \<in> nfa_targets (NFA.transitions nfa)" by blast
qed

lemma symbol_loop_progress:
  assumes "symbol_loop nfa current symbols (ds, um, dt) = (ds', um', dt')"
  shows "(ds' = ds \<and> um' = um)
         \<or> (ds \<subset> ds' \<and> ds' \<subseteq> ds \<union> Pow (nfa_targets (NFA.transitions nfa)))"
  using assms
proof (induction symbols arbitrary: ds um dt)
  case Nil
  then show ?case by simp
next
  case (Cons symbol symbols)
  let ?n = "next_states_of nfa current symbol"
  let ?dt = "AList.update current (AList.update symbol ?n (row_get dt current)) dt"
  show ?case
  proof (cases "?n \<noteq> {} \<and> ?n \<notin> ds")
    case True
    then have "symbol_loop nfa current symbols (insert ?n ds, ?n # um, ?dt) = (ds', um', dt')"
      using Cons.prems by (simp add: Let_def)
    from Cons.IH [OF this]
    have "insert ?n ds \<subseteq> ds' \<and> ds' \<subseteq> insert ?n ds \<union> Pow (nfa_targets (NFA.transitions nfa))"
      by auto
    then show ?thesis using True next_states_of_bound [of nfa current symbol] by auto
  next
    case False
    then have "symbol_loop nfa current symbols (ds, um, ?dt) = (ds', um', dt')
               \<or> symbol_loop nfa current symbols (ds, um, dt) = (ds', um', dt')"
      using Cons.prems by (auto simp: Let_def split: if_splits)
    then show ?thesis using Cons.IH by blast
  qed
qed

lemma subset_loop_decreases:
  assumes "symbol_loop nfa current symbols (ds, um, dt) = (ds', um', dt')"
  shows "((nfa, ds', um', dt'), (nfa, ds, current # um, dt0))
           \<in> inv_image (less_than <*lex*> less_than)
               (\<lambda>(nfa, ds, um, dt).
                  (card (Pow (nfa_targets (NFA.transitions nfa)) - ds), length um))"
  using symbol_loop_progress [OF assms]
proof
  assume "ds' = ds \<and> um' = um"
  then show ?thesis by simp
next
  let ?P = "Pow (nfa_targets (NFA.transitions nfa))"
  assume "ds \<subset> ds' \<and> ds' \<subseteq> ds \<union> ?P"
  then have "?P - ds' \<subset> ?P - ds" by blast
  then have "card (?P - ds') < card (?P - ds)"
    by (intro psubset_card_mono) (auto simp: finite_nfa_targets)
  then show ?thesis by simp
qed

text \<open>The \<open>while unmarked_states\<close> loop of \<open>nfa_to_dfa\<close>.\<close>

function subset_loop ::
  "('s::linorder) NFA \<Rightarrow> 's set set \<Rightarrow> 's set list
   \<Rightarrow> ('s set \<times> (string \<times> 's set) list) list
   \<Rightarrow> 's set set \<times> ('s set \<times> (string \<times> 's set) list) list" where
  "subset_loop nfa dfa_states [] dfa_transitions = (dfa_states, dfa_transitions)"
| "subset_loop nfa dfa_states (current # unmarked_states) dfa_transitions =
     (case symbol_loop nfa current (NFA.alphabet nfa)
             (dfa_states, unmarked_states, AList.update current [] dfa_transitions) of
        (dfa_states', unmarked_states', dfa_transitions') \<Rightarrow>
          subset_loop nfa dfa_states' unmarked_states' dfa_transitions')"
  by pat_completeness auto
termination
proof (relation "inv_image (less_than <*lex*> less_than)
                   (\<lambda>(nfa, ds, um, dt).
                      (card (Pow (nfa_targets (NFA.transitions nfa)) - ds), length um))")
  show "wf (inv_image (less_than <*lex*> less_than)
              (\<lambda>(nfa :: ('s::linorder) NFA, ds, um :: 's set list,
                  dt :: ('s set \<times> (string \<times> 's set) list) list).
                 (card (Pow (nfa_targets (NFA.transitions nfa)) - ds), length um)))"
    by (intro wf_inv_image wf_lex_prod wf_less_than)
next
  fix nfa :: "('s::linorder) NFA" and dfa_states current unmarked_states
    and dfa_transitions :: "('s set \<times> (string \<times> 's set) list) list"
    and ds' y um' dt'
  assume "(ds', y) = symbol_loop nfa current (NFA.alphabet nfa)
             (dfa_states, unmarked_states, AList.update current [] dfa_transitions)"
    and "(um', dt') = y"
  then have "symbol_loop nfa current (NFA.alphabet nfa)
             (dfa_states, unmarked_states, AList.update current [] dfa_transitions) = (ds', um', dt')"
    by simp
  then show "((nfa, ds', um', dt'), (nfa, dfa_states, current # unmarked_states, dfa_transitions))
          \<in> inv_image (less_than <*lex*> less_than)
              (\<lambda>(nfa, ds, um, dt).
                 (card (Pow (nfa_targets (NFA.transitions nfa)) - ds), length um))"
    by (rule subset_loop_decreases)
qed

text \<open>
  \<open>nfa_to_dfa\<close>: the start closure, the loop, then the accept marking
  \<open>any(s in nfa.accept_states for s in state_set)\<close> over \<open>dfa_states\<close>.
\<close>

definition nfa_to_dfa :: "('s::linorder) NFA \<Rightarrow> 's DFA" where
  "nfa_to_dfa nfa =
     (let start_closure = epsilon_closure nfa {NFA.start_state nfa}
      in case subset_loop nfa {start_closure} [start_closure] [] of
           (dfa_states, dfa_transitions) \<Rightarrow>
             \<lparr> DFA.states = dfa_states,
               alphabet = NFA.alphabet nfa,
               transitions = dfa_transitions,
               start_state = start_closure,
               accept_states =
                 Set.filter (\<lambda>state_set. \<exists>s \<in> state_set. s \<in> NFA.accept_states nfa)
                   dfa_states \<rparr>)"

text \<open>The NFA of the example in the main block, with \<open>q0\<close>, \<open>q1\<close>, \<open>q2\<close> as 0, 1, 2.\<close>

definition example_nfa :: "nat NFA" where
  "example_nfa =
     \<lparr> NFA.states = {0, 1, 2}, alphabet = [''a'', ''b''],
       transitions = [(0, [(''a'', [1])]), (1, [(''b'', [1]), ([], [2])])],
       start_state = 0, accept_states = {2} \<rparr>"

section \<open>The closure loops without a built-in termination argument\<close>

text \<open>
  The two \<open>while\<close> loops again, as partial functions into \<open>option\<close>: \<open>None\<close> is a loop
  that does not return. Nothing about termination is assumed in these definitions.
\<close>

partial_function (option) eps_closure_while ::
  "trans \<Rightarrow> nat set \<Rightarrow> nat list \<Rightarrow> nat set option" where
  "eps_closure_while tr res stk =
     (case stk of
        [] \<Rightarrow> Some res
      | s # stk0 \<Rightarrow>
          (case eps_scan (tr_get tr s) (res, stk0) of
             (res', stk') \<Rightarrow> eps_closure_while tr res' stk'))"

definition eps_closure_run :: "nat set \<Rightarrow> trans \<Rightarrow> nat set option" where
  "eps_closure_run S tr = eps_closure_while tr S (rev (sorted_list_of_set S))"

partial_function (option) epsilon_closure_while ::
  "('s \<times> (string \<times> 's list) list) list \<Rightarrow> 's set \<Rightarrow> 's list \<Rightarrow> 's set option" where
  "epsilon_closure_while trs closure stack =
     (case stack of
        [] \<Rightarrow> Some closure
      | state # stack0 \<Rightarrow>
          (case closure_scan (eps_targets trs state) (closure, stack0) of
             (closure', stack') \<Rightarrow> epsilon_closure_while trs closure' stack'))"

definition epsilon_closure_run :: "('s::linorder) NFA \<Rightarrow> 's set \<Rightarrow> 's set option" where
  "epsilon_closure_run nfa state_set =
     epsilon_closure_while (NFA.transitions nfa) state_set
       (rev (sorted_list_of_set state_set))"

section \<open>Epsilon edges\<close>

text \<open>The epsilon edges of the two transition tables, as relations on states.\<close>

definition eps_edges :: "trans \<Rightarrow> (nat \<times> nat) set" where
  "eps_edges tr = {(s, d). (None, d) \<in> set (tr_get tr s)}"

definition nfa_eps_edges :: "('s \<times> (string \<times> 's list) list) list \<Rightarrow> ('s \<times> 's) set" where
  "nfa_eps_edges trs = {(s, d). d \<in> set (eps_targets trs s)}"

section \<open>Notions used in the statements about the matcher and the DFA\<close>

text \<open>Every label that occurs in the table of a fragment.\<close>

definition tr_labels :: "trans \<Rightarrow> char option set" where
  "tr_labels tr = (\<Union>(k, es) \<in> set tr. fst ` set es)"

text \<open>
  Every entry of the nested transition dict of a DFA, as a list of
  \<open>(state, symbol, target)\<close> triples: one triple per stored entry, not per lookup.
\<close>

definition dfa_edges :: "'s DFA \<Rightarrow> ('s set \<times> string \<times> 's set) list" where
  "dfa_edges dfa =
     concat (map (\<lambda>(T, row). map (\<lambda>(a, U). (T, a, U)) row) (DFA.transitions dfa))"

text \<open>
  NFA simulation on an object of the class \<open>NFA\<close>, from a current set of states: the
  run that the DFA has to reproduce.
\<close>

fun nfa_run :: "('s::linorder) NFA \<Rightarrow> 's set \<Rightarrow> string list \<Rightarrow> bool" where
  "nfa_run nfa T [] = (T \<inter> NFA.accept_states nfa \<noteq> {})"
| "nfa_run nfa T (a # w) =
     (a \<in> set (NFA.alphabet nfa) \<and> next_states_of nfa T a \<noteq> {}
      \<and> nfa_run nfa (next_states_of nfa T a) w)"

subsection \<open>From a fragment to an NFA object\<close>

text \<open>
  Modelled from the spec: regex_to_NFA.py returns a fragment
  \<open>(start, accept set, transition table)\<close> and nfa_to_dfa.py takes an object of the
  class \<open>NFA\<close>; the repository has no function from the one to the other. The spec
  (section 3) describes one NFA with states, alphabet, transitions per state and symbol
  or epsilon, start and accept set, so the fragment is read as that NFA: the alphabet is
  the set of characters that label a transition, the targets of a state are grouped by
  label, \<open>EPS\<close> becomes the empty symbol and a character its one-character string.
\<close>

text \<open>Modelled from the spec: the symbol of a label, \<open>EPS\<close> being the empty string.\<close>

definition symbol_of :: "char option \<Rightarrow> string" where
  "symbol_of lab = (case lab of None \<Rightarrow> [] | Some c \<Rightarrow> [c])"

text \<open>
  Modelled from the spec: the row of a state, its targets grouped by symbol in the order
  of the edge list.
\<close>

definition to_row :: "edge list \<Rightarrow> (string \<times> nat list) list" where
  "to_row es =
     map (\<lambda>lab. (symbol_of lab, map snd (filter (\<lambda>e. fst e = lab) es)))
       (remdups (map fst es))"

text \<open>Modelled from the spec: the symbols other than epsilon on a list of edges.\<close>

definition edge_symbols :: "edge list \<Rightarrow> string list" where
  "edge_symbols es =
     concat (map (\<lambda>(lab, d). case lab of None \<Rightarrow> [] | Some c \<Rightarrow> [[c]]) es)"

text \<open>
  Modelled from the spec: the NFA object of a fragment. The field \<open>states\<close> holds every
  state that the fragment mentions; \<open>nfa_to_dfa\<close> does not read it.
\<close>

definition to_NFA :: "frag \<Rightarrow> nat NFA" where
  "to_NFA nfa =
     (case nfa of (st, acc, tr) \<Rightarrow>
        \<lparr> NFA.states = insert st (acc \<union> fst ` set tr \<union> tr_targets tr),
          alphabet = remdups (concat (map (\<lambda>(k, es). edge_symbols es) tr)),
          transitions = map (\<lambda>(k, es). (k, to_row es)) tr,
          start_state = st,
          accept_states = acc \<rparr>)"

text \<open>The fragment that the pipeline builds for the pattern \<open>a|b\<close>.\<close>

definition a_or_b :: frag where
  "a_or_b =
     (4, {5},
      [(0, [(Some CHR ''a'', 1)]), (2, [(Some CHR ''b'', 3)]),
       (4, [(None, 0), (None, 2)]), (1, [(None, 5)]), (3, [(None, 5)])])"

subsection \<open>Examples with epsilon cycles\<close>

text \<open>A table whose epsilon edges form the cycle 0, 1, 2, 0, with an exit to 3.\<close>

definition cyclic_tr :: trans where
  "cyclic_tr = [(0, [(None, 1)]), (1, [(None, 2), (Some CHR ''a'', 4)]), (2, [(None, 0), (None, 3)])]"

definition cyclic_nfa :: "nat NFA" where
  "cyclic_nfa =
     \<lparr> NFA.states = {0, 1, 2, 3}, alphabet = [''a''],
       transitions = [(0, [([], [1])]), (1, [([], [2]), (''a'', [3])]), (2, [([], [0])])],
       start_state = 0, accept_states = {3} \<rparr>"

subsection \<open>Invariants of the subset construction\<close>

text \<open>
  A nested dict is well-formed when no key occurs twice, neither among the rows nor
  inside a row. Python dicts have this by construction; the association lists have it
  because every write goes through \<open>AList.update\<close>.
\<close>

definition rows_ok :: "('k \<times> ('a \<times> 'b) list) list \<Rightarrow> bool" where
  "rows_ok dt \<longleftrightarrow> distinct (map fst dt) \<and> (\<forall>p \<in> set dt. distinct (map fst (snd p)))"

text \<open>
  The row of a processed DFA state \<open>T\<close> holds, for every symbol of the alphabet with a
  non-empty successor set, exactly that set, which is again a DFA state.
\<close>

definition row_correct ::
  "('s::linorder) NFA \<Rightarrow> ('s set \<times> (string \<times> 's set) list) list \<Rightarrow> 's set set \<Rightarrow> 's set
   \<Rightarrow> bool" where
  "row_correct nfa dt ds T \<longleftrightarrow>
     (\<forall>a. map_of (row_get dt T) a
            = (if a \<in> set (NFA.alphabet nfa) \<and> next_states_of nfa T a \<noteq> {}
               then Some (next_states_of nfa T a) else None)
          \<and> (a \<in> set (NFA.alphabet nfa) \<and> next_states_of nfa T a \<noteq> {}
               \<longrightarrow> next_states_of nfa T a \<in> ds))"

definition dfa_inv ::
  "('s::linorder) NFA \<Rightarrow> 's set set \<Rightarrow> 's set list
   \<Rightarrow> ('s set \<times> (string \<times> 's set) list) list \<Rightarrow> bool" where
  "dfa_inv nfa ds um dt \<longleftrightarrow>
     set um \<subseteq> ds \<and> (\<forall>T \<in> ds - set um. row_correct nfa dt ds T)"

section \<open>Properties of the normalizer\<close>

lemma add_concat_loop_strip:
  "filter (\<lambda>x. x \<noteq> CHR ''.'') (add_concat_loop out prev r)
     = filter (\<lambda>x. x \<noteq> CHR ''.'') out @ filter (\<lambda>x. x \<noteq> CHR ''.'') r"
  by (induction r arbitrary: out prev) auto

text \<open>
  C10. Concatenation insertion only inserts markers: for a pattern that does not contain
  the marker character \<open>.\<close>, deleting every \<open>.\<close> from \<open>add_concat r\<close> gives back \<open>r\<close>, so
  no input character is removed or reordered.
\<close>

theorem add_concat_only_inserts:
  "CHR ''.'' \<notin> set r \<Longrightarrow> filter (\<lambda>x. x \<noteq> CHR ''.'') (add_concat r) = r"
proof -
  assume nodot: "CHR ''.'' \<notin> set r"
  have "filter (\<lambda>x. x \<noteq> CHR ''.'') (add_concat r) = filter (\<lambda>x. x \<noteq> CHR ''.'') r"
    by (simp add: add_concat_def add_concat_loop_strip)
  also have "\<dots> = r"
    using nodot by (induction r) auto
  finally show ?thesis .
qed

theorem add_concat_only_inserts_witness:
  "CHR ''.'' \<notin> set ''a(b|c)*d''
   \<and> add_concat ''a(b|c)*d'' = ''a.(b|c)*.d''
   \<and> filter (\<lambda>x. x \<noteq> CHR ''.'') (add_concat ''a(b|c)*d'') = ''a(b|c)*d''"
proof -
  have h: "CHR ''.'' \<notin> set ''a(b|c)*d''" by simp
  have e: "add_concat ''a(b|c)*d'' = ''a.(b|c)*.d''" by (simp add: add_concat_def)
  show ?thesis using h e add_concat_only_inserts [OF h] by simp
qed


section \<open>Properties of the epsilon closure in regex_to_NFA.py\<close>

lemma eps_scan_fst_edges:
  "fst (eps_scan (tr_get tr s) (res, stk)) = res \<union> eps_edges tr `` {s}"
  by (auto simp: eps_scan_fst eps_edges_def)

lemma eps_scan_snd_edges:
  "set (snd (eps_scan (tr_get tr s) (res, stk))) = set stk \<union> (eps_edges tr `` {s} - res)"
  by (auto simp: eps_scan_snd eps_edges_def)

lemma eps_loop_superset: "res \<subseteq> eps_loop tr res stk"
proof (induction tr res stk rule: eps_loop.induct)
  case (1 tr res)
  show ?case by simp
next
  case (2 tr res s stk)
  obtain res' stk' where sc: "eps_scan (tr_get tr s) (res, stk) = (res', stk')"
    by (cases "eps_scan (tr_get tr s) (res, stk)")
  have "res \<subseteq> res'" using eps_scan_fst [of "tr_get tr s" res stk] sc by auto
  moreover have "res' \<subseteq> eps_loop tr res' stk'" using "2.IH" [OF sc [symmetric]] .
  ultimately show ?case using sc by auto
qed

lemma eps_loop_sound:
  "set stk \<subseteq> res \<Longrightarrow> eps_loop tr res stk \<subseteq> (eps_edges tr)\<^sup>* `` res"
proof (induction tr res stk rule: eps_loop.induct)
  case (1 tr res)
  show ?case by auto
next
  case (2 tr res s stk)
  obtain res' stk' where sc: "eps_scan (tr_get tr s) (res, stk) = (res', stk')"
    by (cases "eps_scan (tr_get tr s) (res, stk)")
  have r': "res' = res \<union> eps_edges tr `` {s}"
    using eps_scan_fst_edges [of tr s res stk] sc by simp
  have s': "set stk' = set stk \<union> (eps_edges tr `` {s} - res)"
    using eps_scan_snd_edges [of tr s res stk] sc by simp
  have sub: "set stk' \<subseteq> res'" using r' s' "2.prems" by auto
  have "eps_loop tr res' stk' \<subseteq> (eps_edges tr)\<^sup>* `` res'"
    using "2.IH" [OF sc [symmetric] sub] .
  moreover have "s \<in> res" using "2.prems" by simp
  then have "res' \<subseteq> (eps_edges tr)\<^sup>* `` res" using r' by auto
  then have "(eps_edges tr)\<^sup>* `` res' \<subseteq> (eps_edges tr)\<^sup>* `` res"
    by (auto intro: rtrancl_trans)
  ultimately show ?case using sc by auto
qed

lemma eps_loop_closed:
  "set stk \<subseteq> res \<Longrightarrow> \<forall>x \<in> res - set stk. eps_edges tr `` {x} \<subseteq> res
     \<Longrightarrow> eps_edges tr `` (eps_loop tr res stk) \<subseteq> eps_loop tr res stk"
proof (induction tr res stk rule: eps_loop.induct)
  case (1 tr res)
  then show ?case by auto
next
  case (2 tr res s stk)
  obtain res' stk' where sc: "eps_scan (tr_get tr s) (res, stk) = (res', stk')"
    by (cases "eps_scan (tr_get tr s) (res, stk)")
  have r': "res' = res \<union> eps_edges tr `` {s}"
    using eps_scan_fst_edges [of tr s res stk] sc by simp
  have s': "set stk' = set stk \<union> (eps_edges tr `` {s} - res)"
    using eps_scan_snd_edges [of tr s res stk] sc by simp
  have sub: "set stk' \<subseteq> res'" using r' s' "2.prems" by auto
  have inv: "\<forall>x \<in> res' - set stk'. eps_edges tr `` {x} \<subseteq> res'"
  proof
    fix x assume x: "x \<in> res' - set stk'"
    then have xres: "x \<in> res" using r' s' by auto
    show "eps_edges tr `` {x} \<subseteq> res'"
    proof (cases "x = s")
      case True
      then show ?thesis using r' by auto
    next
      case False
      then have "x \<in> res - set (s # stk)" using x xres s' by auto
      then have "eps_edges tr `` {x} \<subseteq> res" using "2.prems"(2) by blast
      then show ?thesis using r' by auto
    qed
  qed
  have "eps_edges tr `` (eps_loop tr res' stk') \<subseteq> eps_loop tr res' stk'"
    using "2.IH" [OF sc [symmetric] sub inv] .
  then show ?case using sc by simp
qed

text \<open>
  Whatever the order in which the seed set is put on the stack, the loop returns the
  states reachable from the seeds along epsilon edges.
\<close>

lemma eps_loop_reach:
  assumes "set stk = res"
  shows "eps_loop tr res stk = (eps_edges tr)\<^sup>* `` res"
proof
  show "eps_loop tr res stk \<subseteq> (eps_edges tr)\<^sup>* `` res"
    using assms by (intro eps_loop_sound) simp
next
  let ?R = "eps_loop tr res stk"
  have closed: "eps_edges tr `` ?R \<subseteq> ?R"
    using assms by (intro eps_loop_closed) auto
  have "y \<in> ?R" if "(x, y) \<in> (eps_edges tr)\<^sup>*" and "x \<in> ?R" for x y
    using that closed by (induction rule: rtrancl_induct) auto
  then show "(eps_edges tr)\<^sup>* `` res \<subseteq> ?R"
    using eps_loop_superset [of res tr stk] by blast
qed

lemma eps_closure_reach:
  "finite S \<Longrightarrow> eps_closure S tr = (eps_edges tr)\<^sup>* `` S"
  by (simp add: eps_closure_def eps_loop_reach)

lemma eps_closure_infinite: "infinite S \<Longrightarrow> eps_closure S tr = S"
  by (simp add: eps_closure_def)

lemma eps_edges_targets: "Range (eps_edges tr) \<subseteq> tr_targets tr"
  using tr_get_targets by (fastforce simp: eps_edges_def)

lemma finite_eps_reach: "finite S \<Longrightarrow> finite ((eps_edges tr)\<^sup>* `` S)"
proof -
  assume fin: "finite S"
  have "(eps_edges tr)\<^sup>* `` S \<subseteq> S \<union> Range (eps_edges tr)"
    by (auto elim: rtranclE)
  then show ?thesis
    using fin eps_edges_targets [of tr] finite_tr_targets [of tr]
    by (meson finite_UnI finite_subset)
qed

lemma eps_closure_seed: "S \<subseteq> eps_closure S tr"
  by (simp add: eps_closure_def eps_loop_superset)

lemma eps_closure_idem: "eps_closure (eps_closure S tr) tr = eps_closure S tr"
proof (cases "finite S")
  case True
  then show ?thesis
    by (simp add: eps_closure_reach finite_eps_reach) (auto intro: rtrancl_trans)
next
  case False
  then show ?thesis by (simp add: eps_closure_infinite)
qed

lemma eps_closure_while_total: "eps_closure_while tr res stk = Some (eps_loop tr res stk)"
proof (induction tr res stk rule: eps_loop.induct)
  case (1 tr res)
  show ?case by (subst eps_closure_while.simps) simp
next
  case (2 tr res s stk)
  show ?case
    by (subst eps_closure_while.simps) (use 2 in \<open>simp split: prod.splits\<close>)
qed

section \<open>Properties of NFA.epsilon_closure\<close>

lemma closure_scan_fst_edges:
  "fst (closure_scan (eps_targets trs s) (closure, stack)) = closure \<union> nfa_eps_edges trs `` {s}"
  by (auto simp: closure_scan_fst nfa_eps_edges_def)

lemma closure_scan_snd_edges:
  "set (snd (closure_scan (eps_targets trs s) (closure, stack)))
     = set stack \<union> (nfa_eps_edges trs `` {s} - closure)"
  by (auto simp: closure_scan_snd nfa_eps_edges_def)

lemma epsilon_closure_loop_superset: "closure \<subseteq> epsilon_closure_loop trs closure stack"
proof (induction trs closure stack rule: epsilon_closure_loop.induct)
  case (1 trs closure)
  show ?case by simp
next
  case (2 trs closure state stack)
  obtain closure' stack' where
    sc: "closure_scan (eps_targets trs state) (closure, stack) = (closure', stack')"
    by (cases "closure_scan (eps_targets trs state) (closure, stack)")
  have "closure \<subseteq> closure'"
    using closure_scan_fst [of "eps_targets trs state" closure stack] sc by auto
  moreover have "closure' \<subseteq> epsilon_closure_loop trs closure' stack'"
    using "2.IH" [OF sc [symmetric]] .
  ultimately show ?case using sc by auto
qed

lemma epsilon_closure_loop_sound:
  "set stack \<subseteq> closure
     \<Longrightarrow> epsilon_closure_loop trs closure stack \<subseteq> (nfa_eps_edges trs)\<^sup>* `` closure"
proof (induction trs closure stack rule: epsilon_closure_loop.induct)
  case (1 trs closure)
  show ?case by auto
next
  case (2 trs closure state stack)
  obtain closure' stack' where
    sc: "closure_scan (eps_targets trs state) (closure, stack) = (closure', stack')"
    by (cases "closure_scan (eps_targets trs state) (closure, stack)")
  have c': "closure' = closure \<union> nfa_eps_edges trs `` {state}"
    using closure_scan_fst_edges [of trs state closure stack] sc by simp
  have s': "set stack' = set stack \<union> (nfa_eps_edges trs `` {state} - closure)"
    using closure_scan_snd_edges [of trs state closure stack] sc by simp
  have sub: "set stack' \<subseteq> closure'" using c' s' "2.prems" by auto
  have "epsilon_closure_loop trs closure' stack' \<subseteq> (nfa_eps_edges trs)\<^sup>* `` closure'"
    using "2.IH" [OF sc [symmetric] sub] .
  moreover have "state \<in> closure" using "2.prems" by simp
  then have "closure' \<subseteq> (nfa_eps_edges trs)\<^sup>* `` closure" using c' by auto
  then have "(nfa_eps_edges trs)\<^sup>* `` closure' \<subseteq> (nfa_eps_edges trs)\<^sup>* `` closure"
    by (auto intro: rtrancl_trans)
  ultimately show ?case using sc by auto
qed

lemma epsilon_closure_loop_closed:
  "set stack \<subseteq> closure \<Longrightarrow> \<forall>x \<in> closure - set stack. nfa_eps_edges trs `` {x} \<subseteq> closure
     \<Longrightarrow> nfa_eps_edges trs `` (epsilon_closure_loop trs closure stack)
           \<subseteq> epsilon_closure_loop trs closure stack"
proof (induction trs closure stack rule: epsilon_closure_loop.induct)
  case (1 trs closure)
  then show ?case by auto
next
  case (2 trs closure state stack)
  obtain closure' stack' where
    sc: "closure_scan (eps_targets trs state) (closure, stack) = (closure', stack')"
    by (cases "closure_scan (eps_targets trs state) (closure, stack)")
  have c': "closure' = closure \<union> nfa_eps_edges trs `` {state}"
    using closure_scan_fst_edges [of trs state closure stack] sc by simp
  have s': "set stack' = set stack \<union> (nfa_eps_edges trs `` {state} - closure)"
    using closure_scan_snd_edges [of trs state closure stack] sc by simp
  have sub: "set stack' \<subseteq> closure'" using c' s' "2.prems" by auto
  have inv: "\<forall>x \<in> closure' - set stack'. nfa_eps_edges trs `` {x} \<subseteq> closure'"
  proof
    fix x assume x: "x \<in> closure' - set stack'"
    then have xin: "x \<in> closure" using c' s' by auto
    show "nfa_eps_edges trs `` {x} \<subseteq> closure'"
    proof (cases "x = state")
      case True
      then show ?thesis using c' by auto
    next
      case False
      then have "x \<in> closure - set (state # stack)" using x xin s' by auto
      then have "nfa_eps_edges trs `` {x} \<subseteq> closure" using "2.prems"(2) by blast
      then show ?thesis using c' by auto
    qed
  qed
  have "nfa_eps_edges trs `` (epsilon_closure_loop trs closure' stack')
          \<subseteq> epsilon_closure_loop trs closure' stack'"
    using "2.IH" [OF sc [symmetric] sub inv] .
  then show ?case using sc by simp
qed

lemma epsilon_closure_loop_reach:
  assumes "set stack = closure"
  shows "epsilon_closure_loop trs closure stack = (nfa_eps_edges trs)\<^sup>* `` closure"
proof
  show "epsilon_closure_loop trs closure stack \<subseteq> (nfa_eps_edges trs)\<^sup>* `` closure"
    using assms by (intro epsilon_closure_loop_sound) simp
next
  let ?R = "epsilon_closure_loop trs closure stack"
  have closed: "nfa_eps_edges trs `` ?R \<subseteq> ?R"
    using assms by (intro epsilon_closure_loop_closed) auto
  have "y \<in> ?R" if "(x, y) \<in> (nfa_eps_edges trs)\<^sup>*" and "x \<in> ?R" for x y
    using that closed by (induction rule: rtrancl_induct) auto
  then show "(nfa_eps_edges trs)\<^sup>* `` closure \<subseteq> ?R"
    using epsilon_closure_loop_superset [of closure trs stack] by blast
qed

lemma epsilon_closure_reach:
  "finite S \<Longrightarrow> epsilon_closure nfa S = (nfa_eps_edges (NFA.transitions nfa))\<^sup>* `` S"
  by (simp add: epsilon_closure_def epsilon_closure_loop_reach)

lemma epsilon_closure_infinite: "infinite S \<Longrightarrow> epsilon_closure nfa S = S"
  by (simp add: epsilon_closure_def)

lemma nfa_eps_edges_targets: "Range (nfa_eps_edges trs) \<subseteq> nfa_targets trs"
  using eps_targets_sub by (fastforce simp: nfa_eps_edges_def)

lemma finite_nfa_eps_reach: "finite S \<Longrightarrow> finite ((nfa_eps_edges trs)\<^sup>* `` S)"
proof -
  assume fin: "finite S"
  have "(nfa_eps_edges trs)\<^sup>* `` S \<subseteq> S \<union> Range (nfa_eps_edges trs)"
    by (auto elim: rtranclE)
  then show ?thesis
    using fin nfa_eps_edges_targets [of trs] finite_nfa_targets [of trs]
    by (meson finite_UnI finite_subset)
qed

lemma epsilon_closure_seed: "S \<subseteq> epsilon_closure nfa S"
  by (simp add: epsilon_closure_def epsilon_closure_loop_superset)

lemma epsilon_closure_idem:
  "epsilon_closure nfa (epsilon_closure nfa S) = epsilon_closure nfa S"
proof (cases "finite S")
  case True
  then show ?thesis
    by (simp add: epsilon_closure_reach finite_nfa_eps_reach) (auto intro: rtrancl_trans)
next
  case False
  then show ?thesis by (simp add: epsilon_closure_infinite)
qed

lemma epsilon_closure_while_total:
  "epsilon_closure_while trs closure stack = Some (epsilon_closure_loop trs closure stack)"
proof (induction trs closure stack rule: epsilon_closure_loop.induct)
  case (1 trs closure)
  show ?case by (subst epsilon_closure_while.simps) simp
next
  case (2 trs closure state stack)
  show ?case
    by (subst epsilon_closure_while.simps) (use 2 in \<open>simp split: prod.splits\<close>)
qed

section \<open>Claims about the epsilon closure\<close>

text \<open>
  C5. Closure monotonicity: for every set \<open>S\<close> of states and every transition table, \<open>S\<close>
  is a subset of its epsilon closure, for \<open>eps_closure\<close> of regex_to_NFA.py and for
  \<open>NFA.epsilon_closure\<close> of nfa_to_dfa.py; no seed state is dropped.
\<close>

theorem closure_contains_seeds:
  "S \<subseteq> eps_closure S tr \<and> T \<subseteq> epsilon_closure nfa T"
  by (simp add: eps_closure_seed epsilon_closure_seed)

theorem closure_contains_seeds_witness:
  "{1, 2} \<subseteq> eps_closure {1, 2} cyclic_tr \<and> eps_closure {1, 2} cyclic_tr = {0, 1, 2, 3}
   \<and> {1} \<subseteq> epsilon_closure cyclic_nfa {1} \<and> epsilon_closure cyclic_nfa {1} = {0, 1, 2}"
proof -
  have a: "eps_closure {1, 2} cyclic_tr = {0, 1, 2, 3}" by code_simp
  have b: "epsilon_closure cyclic_nfa {1} = {0, 1, 2}" by code_simp
  show ?thesis
    using closure_contains_seeds [of "{1, 2}" cyclic_tr "{1}" cyclic_nfa] a b by simp
qed

text \<open>
  C6. Closure idempotence: applying the epsilon closure twice gives the same set as
  applying it once, for both closure functions, for every set of states and every
  transition table.
\<close>

theorem closure_idempotent:
  "eps_closure (eps_closure S tr) tr = eps_closure S tr
   \<and> epsilon_closure nfa (epsilon_closure nfa T) = epsilon_closure nfa T"
  by (simp add: eps_closure_idem epsilon_closure_idem)

theorem closure_idempotent_witness:
  "eps_closure (eps_closure {1} cyclic_tr) cyclic_tr = eps_closure {1} cyclic_tr
   \<and> eps_closure {1} cyclic_tr = {0, 1, 2, 3}
   \<and> epsilon_closure cyclic_nfa (epsilon_closure cyclic_nfa {2}) = epsilon_closure cyclic_nfa {2}
   \<and> epsilon_closure cyclic_nfa {2} = {0, 1, 2}"
proof -
  have a: "eps_closure {1} cyclic_tr = {0, 1, 2, 3}" by code_simp
  have b: "epsilon_closure cyclic_nfa {2} = {0, 1, 2}" by code_simp
  show ?thesis
    using closure_idempotent [of "{1}" cyclic_tr cyclic_nfa "{2}"] a b by simp
qed

text \<open>
  C7. Termination of the closure computation: the \<open>while\<close> loop, defined without any
  termination argument as a partial function, returns a result on every set of states
  and every (finite) transition table, cyclic epsilon edges included, and the result is
  the closure. The decreasing measure is the number of target states not yet in the
  result, then the height of the stack: a state is pushed only when it is new.
\<close>

theorem closure_terminates:
  "eps_closure_run S tr = Some (eps_closure S tr)
   \<and> epsilon_closure_run nfa T = Some (epsilon_closure nfa T)"
  by (simp add: eps_closure_run_def eps_closure_def eps_closure_while_total
      epsilon_closure_run_def epsilon_closure_def epsilon_closure_while_total)

theorem closure_terminates_witness:
  "eps_closure_run {0} cyclic_tr = Some {0, 1, 2, 3}
   \<and> epsilon_closure_run cyclic_nfa {0} = Some {0, 1, 2}"
proof -
  have a: "eps_closure {0} cyclic_tr = {0, 1, 2, 3}" by code_simp
  have b: "epsilon_closure cyclic_nfa {0} = {0, 1, 2}" by code_simp
  show ?thesis
    using closure_terminates [of "{0}" cyclic_tr cyclic_nfa "{0}"] a b by simp
qed

section \<open>Claims about the builder\<close>

lemma plus_is_star: "build_step (CHR ''+'') ns = build_step (CHR ''*'') ns"
  by (cases ns) (simp add: build_step_def Let_def split: list.splits)

text \<open>
  C1. The pipeline accepts \<open>ac\<close> for the pattern \<open>ab*c\<close> and \<open>abbc\<close> for \<open>ab+c\<close>, as
  claimed; but it also accepts \<open>ac\<close> for \<open>ab+c\<close>: the last statement of the quantifier
  branch of \<open>build\<close> adds the epsilon edge from the new start to the new accept state
  for every quantifier other than \<open>?\<close>, so for \<open>+\<close> as for \<open>*\<close>.
\<close>

theorem plus_accepts_zero_iterations:
  "(case compile ''ab+c'' of Inl e \<Rightarrow> False
    | Inr nfa \<Rightarrow> matches nfa ''ac'' \<and> matches nfa ''abbc'')
   \<and> (case compile ''ab*c'' of Inl e \<Rightarrow> False | Inr nfa \<Rightarrow> matches nfa ''ac'')"
  by code_simp

subsection \<open>Malformed patterns\<close>

lemma pop_to_paren_none:
  "CHR ''('' \<notin> set st \<Longrightarrow> pop_to_paren out st = (out @ st, [])"
  by (induction st arbitrary: out) auto

lemma postfix_paren_examples:
  "to_postfix (add_concat ''(a'') = ''a('' \<and> to_postfix (add_concat '')a'') = ''a.''"
  by (simp add: to_postfix_def add_concat_def to_postfix_step_def prec_def)

text \<open>
  C2, as stated, fails: compiling \<open>(a\<close> reports no error, it returns the fragment of the
  literal \<open>a\<close>.
\<close>

theorem unclosed_paren_compiles:
  "compile ''(a'' = Inr (0, {1}, [(0, [(Some CHR ''a'', 1)])])"
  by code_simp

text \<open>
  C2, amended. The normalizer reports no error: a closing parenthesis met with an
  operator stack that holds no opening parenthesis moves the whole stack to the output
  and goes on, and what is left on the stack at the end of the input, an opening
  parenthesis included, is appended to the output. So
  \<open>(a\<close> becomes the postfix \<open>a(\<close>, which \<open>build\<close> turns into the fragment of the literal
  \<open>a\<close>, and \<open>)a\<close> becomes the postfix \<open>a.\<close>, on which \<open>build\<close> raises \<open>IndexError\<close> when
  it pops the empty operand stack.
\<close>

theorem unmatched_parens_not_reported:
  "(CHR ''('' \<notin> set st \<longrightarrow> to_postfix_step (CHR '')'') (out, st) = (out @ st, []))
   \<and> to_postfix (add_concat ''(a'') = ''a(''
   \<and> to_postfix (add_concat '')a'') = ''a.''
   \<and> build ''a('' = Inr (0, {1}, [(0, [(Some CHR ''a'', 1)])])
   \<and> build ''a.'' = Inl IndexError"
proof -
  have 1: "CHR ''('' \<notin> set st \<longrightarrow> to_postfix_step (CHR '')'') (out, st) = (out @ st, [])"
    by (simp add: to_postfix_step_def pop_to_paren_none)
  have 2: "build ''a('' = Inr (0, {1}, [(0, [(Some CHR ''a'', 1)])])" by code_simp
  have 3: "build ''a.'' = Inl IndexError" by code_simp
  show ?thesis using 1 2 3 postfix_paren_examples by simp
qed

theorem unmatched_parens_not_reported_witness:
  "CHR ''('' \<notin> set ''|.''
   \<and> to_postfix_step (CHR '')'') (''ab'', ''|.'') = (''ab|.'', [])
   \<and> compile ''(a'' = Inr (0, {1}, [(0, [(Some CHR ''a'', 1)])])
   \<and> compile '')a'' = Inl IndexError"
proof -
  have h: "CHR ''('' \<notin> set ''|.''" by simp
  show ?thesis
    using unmatched_parens_not_reported [of "''|.''" "''ab''"] h by (simp add: compile_def)
qed

section \<open>Claims about the accept marking\<close>

text \<open>
  C8. Accept marking: a state of the DFA returned by \<open>nfa_to_dfa\<close>, which is a set of NFA
  states, is in the accept set of the DFA if and only if it has a non-empty
  intersection with the accept set of the NFA.
\<close>

theorem accept_marking:
  "T \<in> DFA.states (nfa_to_dfa nfa)
     \<Longrightarrow> (T \<in> DFA.accept_states (nfa_to_dfa nfa) \<longleftrightarrow> T \<inter> NFA.accept_states nfa \<noteq> {})"
  by (auto simp: nfa_to_dfa_def Let_def split: prod.splits)

theorem accept_marking_witness:
  "{1, 2} \<in> DFA.states (nfa_to_dfa example_nfa)
   \<and> {1, 2} \<in> DFA.accept_states (nfa_to_dfa example_nfa)
   \<and> {1, 2} \<inter> NFA.accept_states example_nfa \<noteq> {}
   \<and> {0} \<in> DFA.states (nfa_to_dfa example_nfa)
   \<and> {0} \<notin> DFA.accept_states (nfa_to_dfa example_nfa)
   \<and> {0} \<inter> NFA.accept_states example_nfa = {}"
proof -
  have a: "({1, 2} :: nat set) \<in> DFA.states (nfa_to_dfa example_nfa)" by code_simp
  have b: "({0} :: nat set) \<in> DFA.states (nfa_to_dfa example_nfa)" by code_simp
  have c: "({1, 2} :: nat set) \<inter> NFA.accept_states example_nfa \<noteq> {}"
    by (simp add: example_nfa_def)
  have d: "({0} :: nat set) \<inter> NFA.accept_states example_nfa = {}"
    by (simp add: example_nfa_def)
  show ?thesis
    using accept_marking [OF a] accept_marking [OF b] a b c d by simp
qed


section \<open>Rejection of symbols without a transition\<close>

lemma tr_get_labels: "fst ` set (tr_get tr s) \<subseteq> tr_labels tr"
proof (cases "map_of tr s")
  case None
  then show ?thesis by (simp add: tr_get_def)
next
  case (Some es)
  then have "(s, es) \<in> set tr" by (rule map_of_SomeD)
  then have "fst ` set es \<subseteq> tr_labels tr"
    unfolding tr_labels_def by blast
  then show ?thesis using Some by (simp add: tr_get_def)
qed

lemma move_no_label: "Some c \<notin> tr_labels tr \<Longrightarrow> move S c tr = {}"
proof -
  assume no: "Some c \<notin> tr_labels tr"
  have "{e \<in> set (tr_get tr s). fst e = Some c} = {}" for s
    using tr_get_labels [of tr s] no by force
  then show ?thesis by (simp add: move_def)
qed

lemma eps_closure_empty: "eps_closure {} tr = {}"
  by (simp add: eps_closure_def)

lemma matches_loop_no_move:
  "move cur ch tr = {} \<Longrightarrow> matches_loop acc tr cur (ch # s) = False"
  by (simp add: eps_closure_empty)

lemma matches_loop_reject:
  "c \<in> set w \<Longrightarrow> Some c \<notin> tr_labels tr \<Longrightarrow> \<not> matches_loop acc tr cur w"
proof (induction w arbitrary: cur)
  case Nil
  then show ?case by simp
next
  case (Cons ch w)
  show ?case
  proof (cases "ch = c")
    case True
    then show ?thesis
      using Cons.prems(2) by (simp add: move_no_label eps_closure_empty)
  next
    case False
    then have "c \<in> set w" using Cons.prems(1) by simp
    then have "\<not> matches_loop acc tr cur' w" for cur'
      using Cons.IH Cons.prems(2) by blast
    then show ?thesis by (simp add: Let_def)
  qed
qed

lemma accepts_loop_reject:
  "a \<in> set w \<Longrightarrow> a \<notin> set (DFA.alphabet dfa) \<Longrightarrow> \<not> accepts_loop dfa T w"
proof (induction w arbitrary: T)
  case Nil
  then show ?case by simp
next
  case (Cons b w)
  show ?case
  proof (cases "b = a")
    case True
    then show ?thesis using Cons.prems(2) by simp
  next
    case False
    then have "a \<in> set w" using Cons.prems(1) by simp
    then have "\<not> accepts_loop dfa T' w" for T'
      using Cons.IH Cons.prems(2) by blast
    then show ?thesis by (simp split: option.splits)
  qed
qed

text \<open>
  C9. The matchers never raise: \<open>matches\<close> and \<open>DFA.accepts\<close> read the tables only with
  \<open>get\<close> and a default, so both are total functions into the booleans. An input that
  contains a character labelling no transition of the fragment makes \<open>matches\<close> return
  false, an input that contains a symbol outside the alphabet of the DFA makes
  \<open>accepts\<close> return false, and so does, in either matcher, a symbol without a
  transition from the current state.
\<close>

theorem matcher_rejects_without_raising:
  "(c \<in> set w \<and> Some c \<notin> tr_labels tr \<longrightarrow> matches (st, acc, tr) w = False)
   \<and> (c \<in> set w \<and> [c] \<notin> set (DFA.alphabet dfa) \<longrightarrow> accepts dfa w = False)
   \<and> (move cur ch tr = {} \<longrightarrow> matches_loop acc tr cur (ch # s) = False)
   \<and> (map_of (row_get (DFA.transitions dfa) T) a = None
        \<longrightarrow> accepts_loop dfa T (a # u) = False)"
proof (intro conjI impI)
  assume "c \<in> set w \<and> Some c \<notin> tr_labels tr"
  then have "\<not> matches_loop acc tr (eps_closure {st} tr) w"
    using matches_loop_reject by blast
  then show "matches (st, acc, tr) w = False"
    by (simp add: matches_def)
next
  assume "c \<in> set w \<and> [c] \<notin> set (DFA.alphabet dfa)"
  then have "[c] \<in> set (map (\<lambda>c. [c]) w)" and "[c] \<notin> set (DFA.alphabet dfa)"
    by auto
  then show "accepts dfa w = False"
    unfolding accepts_def using accepts_loop_reject by blast
next
  assume "move cur ch tr = {}"
  then show "matches_loop acc tr cur (ch # s) = False"
    by (rule matches_loop_no_move)
next
  assume "map_of (row_get (DFA.transitions dfa) T) a = None"
  then show "accepts_loop dfa T (a # u) = False" by simp
qed

theorem matcher_rejects_without_raising_witness:
  "CHR ''c'' \<in> set ''ac'' \<and> Some (CHR ''c'') \<notin> tr_labels cyclic_tr
   \<and> matches (0, {3}, cyclic_tr) ''ac'' = False
   \<and> ''c'' \<notin> set (DFA.alphabet (nfa_to_dfa example_nfa))
   \<and> accepts (nfa_to_dfa example_nfa) ''ac'' = False
   \<and> move {3} (CHR ''a'') cyclic_tr = {}
   \<and> matches_loop {3} cyclic_tr {3} ''ab'' = False
   \<and> map_of (row_get (DFA.transitions (nfa_to_dfa example_nfa)) {0}) ''b'' = None
   \<and> accepts_loop (nfa_to_dfa example_nfa) {0} [''b'', ''a''] = False"
proof -
  have h1: "CHR ''c'' \<in> set ''ac'' \<and> Some (CHR ''c'') \<notin> tr_labels cyclic_tr"
    by (simp add: tr_labels_def cyclic_tr_def)
  have al: "DFA.alphabet (nfa_to_dfa example_nfa) = [''a'', ''b'']" by code_simp
  have h2: "CHR ''c'' \<in> set ''ac'' \<and> ''c'' \<notin> set (DFA.alphabet (nfa_to_dfa example_nfa))"
    by (simp add: al)
  have h3: "move {3} (CHR ''a'') cyclic_tr = {}" by code_simp
  have h4: "map_of (row_get (DFA.transitions (nfa_to_dfa example_nfa)) {0}) ''b'' = None"
    by code_simp
  show ?thesis
    using matcher_rejects_without_raising
      [of "CHR ''c''" "''ac''" cyclic_tr 0 "{3}" "nfa_to_dfa example_nfa"
          "{3}" "CHR ''a''" "''b''" "{0}" "''b''" "[''a'']"]
      h1 h2 h3 h4
    by simp
qed

section \<open>Determinism of the constructed DFA\<close>

lemma set_update_subset: "set (AList.update k v al) \<subseteq> insert (k, v) (set al)"
  by (induction al) auto

lemma rows_ok_update:
  "rows_ok dt \<Longrightarrow> distinct (map fst row) \<Longrightarrow> rows_ok (AList.update k row dt)"
  unfolding rows_ok_def
  using set_update_subset [of k row dt] by (auto simp: distinct_update)

lemma rows_ok_row_get: "rows_ok dt \<Longrightarrow> distinct (map fst (row_get dt T))"
proof (cases "map_of dt T")
  case None
  then show ?thesis by (simp add: row_get_def)
next
  case (Some row)
  assume ok: "rows_ok dt"
  have "(T, row) \<in> set dt" using Some by (rule map_of_SomeD)
  then have "distinct (map fst row)" using ok unfolding rows_ok_def by force
  then show ?thesis using Some by (simp add: row_get_def)
qed

lemma rows_ok_step:
  "rows_ok dt \<Longrightarrow> rows_ok (AList.update T (AList.update a U (row_get dt T)) dt)"
  by (intro rows_ok_update distinct_update rows_ok_row_get)

lemma symbol_loop_rows_ok:
  "rows_ok dt \<Longrightarrow> symbol_loop nfa current symbols (ds, um, dt) = (ds', um', dt')
     \<Longrightarrow> rows_ok dt'"
proof (induction symbols arbitrary: ds um dt)
  case Nil
  then show ?case by simp
next
  case (Cons symbol symbols)
  let ?n = "next_states_of nfa current symbol"
  let ?dt = "AList.update current (AList.update symbol ?n (row_get dt current)) dt"
  have ok2: "rows_ok ?dt" using Cons.prems(1) by (rule rows_ok_step)
  have "symbol_loop nfa current symbols (insert ?n ds, ?n # um, ?dt) = (ds', um', dt')
        \<or> symbol_loop nfa current symbols (ds, um, ?dt) = (ds', um', dt')
        \<or> symbol_loop nfa current symbols (ds, um, dt) = (ds', um', dt')"
    using Cons.prems(2) by (auto simp: Let_def split: if_splits)
  then show ?case using Cons.IH ok2 Cons.prems(1) by blast
qed

lemma subset_loop_rows_ok:
  "rows_ok dt \<Longrightarrow> subset_loop nfa ds um dt = (ds', dt') \<Longrightarrow> rows_ok dt'"
proof (induction nfa ds um dt rule: subset_loop.induct)
  case (1 nfa ds dt)
  then show ?case by simp
next
  case (2 nfa ds current um dt)
  obtain ds1 um1 dt1 where
    sl: "symbol_loop nfa current (NFA.alphabet nfa) (ds, um, AList.update current [] dt)
           = (ds1, um1, dt1)"
    by (metis prod_cases3)
  have "rows_ok (AList.update current [] dt)"
    using "2.prems"(1) by (intro rows_ok_update) simp_all
  then have ok1: "rows_ok dt1" using sl by (rule symbol_loop_rows_ok)
  have res: "subset_loop nfa ds1 um1 dt1 = (ds', dt')"
    using "2.prems"(2) sl by simp
  show ?case using "2.IH" [OF sl [symmetric] refl ok1 res] .
qed

lemma nfa_to_dfa_rows_ok: "rows_ok (DFA.transitions (nfa_to_dfa nfa))"
proof -
  let ?sc = "epsilon_closure nfa {NFA.start_state nfa}"
  obtain ds dt where sl: "subset_loop nfa {?sc} [?sc] [] = (ds, dt)"
    by (cases "subset_loop nfa {?sc} [?sc] []")
  have "rows_ok ([] :: ('a set \<times> (string \<times> 'a set) list) list)"
    by (simp add: rows_ok_def)
  then have "rows_ok dt" using sl by (rule subset_loop_rows_ok)
  then show ?thesis using sl by (simp add: nfa_to_dfa_def Let_def)
qed

lemma edge_keys:
  "map (\<lambda>(T, a, U). (T, a)) (concat (map (\<lambda>(T, row). map (\<lambda>(a, U). (T, a, U)) row) dt))
     = concat (map (\<lambda>(T, row). map (Pair T) (map fst row)) dt)"
  by (induction dt) (auto simp: case_prod_beta)

lemma distinct_edge_keys:
  "rows_ok dt \<Longrightarrow> distinct (concat (map (\<lambda>(T, row). map (Pair T) (map fst row)) dt))"
proof (induction dt)
  case Nil
  show ?case by simp
next
  case (Cons p dt)
  obtain T row where p: "p = (T, row)" by (cases p)
  have ok: "rows_ok dt" using Cons.prems by (simp add: rows_ok_def)
  have fresh: "T \<notin> fst ` set dt" using Cons.prems p by (simp add: rows_ok_def)
  have row: "distinct (map fst row)" using Cons.prems p by (simp add: rows_ok_def)
  have d1: "distinct (map (Pair T) (map fst row))"
    using row by (simp add: distinct_map inj_on_def)
  have "fst ` set (concat (map (\<lambda>(T, row). map (Pair T) (map fst row)) dt)) \<subseteq> fst ` set dt"
    by force
  then have d2: "set (map (Pair T) (map fst row))
                   \<inter> set (concat (map (\<lambda>(T, row). map (Pair T) (map fst row)) dt)) = {}"
    using fresh by force
  show ?case using p d1 d2 Cons.IH [OF ok] by simp
qed

text \<open>
  C4. Determinism: in the DFA returned by \<open>nfa_to_dfa\<close> no (state, symbol) pair has two
  entries, so two transitions with the same source and symbol have the same target;
  every DFA state has at most one row; and DFA states, being sets of NFA states, are
  the same state as soon as they have the same elements.
\<close>

theorem dfa_deterministic:
  "distinct (map (\<lambda>(T, a, U). (T, a)) (dfa_edges (nfa_to_dfa nfa)))
   \<and> (\<forall>T a U U'. (T, a, U) \<in> set (dfa_edges (nfa_to_dfa nfa))
                   \<and> (T, a, U') \<in> set (dfa_edges (nfa_to_dfa nfa)) \<longrightarrow> U = U')
   \<and> distinct (map fst (DFA.transitions (nfa_to_dfa nfa)))
   \<and> (\<forall>T \<in> DFA.states (nfa_to_dfa nfa). \<forall>T' \<in> DFA.states (nfa_to_dfa nfa).
         (\<forall>s. s \<in> T \<longleftrightarrow> s \<in> T') \<longrightarrow> T = T')"
proof -
  let ?E = "dfa_edges (nfa_to_dfa nfa)"
  have ok: "rows_ok (DFA.transitions (nfa_to_dfa nfa))" by (rule nfa_to_dfa_rows_ok)
  have d: "distinct (map (\<lambda>(T, a, U). (T, a)) ?E)"
    unfolding dfa_edges_def edge_keys using ok by (rule distinct_edge_keys)
  then have inj: "inj_on (\<lambda>(T, a, U). (T, a)) (set ?E)"
    by (simp add: distinct_map)
  have single: "U = U'" if "(T, a, U) \<in> set ?E" and "(T, a, U') \<in> set ?E" for T a U U'
    using inj_onD [OF inj _ that] by simp
  have keys: "distinct (map fst (DFA.transitions (nfa_to_dfa nfa)))"
    using ok by (simp add: rows_ok_def)
  show ?thesis using d single keys by blast
qed

theorem dfa_deterministic_witness:
  "dfa_edges (nfa_to_dfa example_nfa) = [({0}, ''a'', {1, 2}), ({1, 2}, ''b'', {1, 2})]
   \<and> distinct (map (\<lambda>(T, a, U). (T, a)) (dfa_edges (nfa_to_dfa example_nfa)))
   \<and> distinct (map fst (DFA.transitions (nfa_to_dfa example_nfa)))"
proof -
  have e: "dfa_edges (nfa_to_dfa example_nfa) = [({0}, ''a'', {1, 2}), ({1, 2}, ''b'', {1, 2})]"
    by code_simp
  show ?thesis using dfa_deterministic [of example_nfa] e by simp
qed


section \<open>The subset construction reproduces the NFA run\<close>

lemma row_get_update:
  "row_get (AList.update k v al) T = (if T = k then v else row_get al T)"
  by (simp add: row_get_def update_conv')

lemma symbol_loop_cases:
  assumes "symbol_loop nfa current (symbol # symbols) (ds, um, dt) = R"
  shows "(next_states_of nfa current symbol = {}
            \<and> symbol_loop nfa current symbols (ds, um, dt) = R)
         \<or> (next_states_of nfa current symbol \<noteq> {}
            \<and> next_states_of nfa current symbol \<in> ds
            \<and> symbol_loop nfa current symbols
                 (ds, um,
                  AList.update current
                    (AList.update symbol (next_states_of nfa current symbol)
                       (row_get dt current)) dt) = R)
         \<or> (next_states_of nfa current symbol \<noteq> {}
            \<and> next_states_of nfa current symbol \<notin> ds
            \<and> symbol_loop nfa current symbols
                 (insert (next_states_of nfa current symbol) ds,
                  next_states_of nfa current symbol # um,
                  AList.update current
                    (AList.update symbol (next_states_of nfa current symbol)
                       (row_get dt current)) dt) = R)"
proof (cases "next_states_of nfa current symbol = {}")
  case True
  then show ?thesis using assms by (simp add: Let_def)
next
  case False
  then show ?thesis using assms
    by (cases "next_states_of nfa current symbol \<in> ds") (simp_all add: Let_def)
qed

lemma symbol_loop_states:
  "symbol_loop nfa current symbols (ds, um, dt) = (ds', um', dt')
     \<Longrightarrow> ds' = ds \<union> (next_states_of nfa current ` set symbols - {{}})"
proof (induction symbols arbitrary: ds um dt)
  case Nil
  then show ?case by simp
next
  case (Cons symbol symbols)
  from symbol_loop_cases [OF Cons.prems] show ?case
  proof (elim disjE conjE)
    assume "next_states_of nfa current symbol = {}"
      and "symbol_loop nfa current symbols (ds, um, dt) = (ds', um', dt')"
    then show ?thesis using Cons.IH by auto
  next
    assume "next_states_of nfa current symbol \<noteq> {}"
      and "next_states_of nfa current symbol \<in> ds"
      and sl: "symbol_loop nfa current symbols
                 (ds, um, AList.update current
                    (AList.update symbol (next_states_of nfa current symbol)
                       (row_get dt current)) dt) = (ds', um', dt')"
    then show ?thesis using Cons.IH [OF sl] by auto
  next
    assume "next_states_of nfa current symbol \<noteq> {}"
      and "next_states_of nfa current symbol \<notin> ds"
      and sl: "symbol_loop nfa current symbols
                 (insert (next_states_of nfa current symbol) ds,
                  next_states_of nfa current symbol # um,
                  AList.update current
                    (AList.update symbol (next_states_of nfa current symbol)
                       (row_get dt current)) dt) = (ds', um', dt')"
    then show ?thesis using Cons.IH [OF sl] by auto
  qed
qed

lemma symbol_loop_unmarked:
  "symbol_loop nfa current symbols (ds, um, dt) = (ds', um', dt')
     \<Longrightarrow> set um' = set um \<union> (ds' - ds)"
proof (induction symbols arbitrary: ds um dt)
  case Nil
  then show ?case by simp
next
  case (Cons symbol symbols)
  from symbol_loop_cases [OF Cons.prems] show ?case
  proof (elim disjE conjE)
    assume "next_states_of nfa current symbol = {}"
      and "symbol_loop nfa current symbols (ds, um, dt) = (ds', um', dt')"
    then show ?thesis using Cons.IH by blast
  next
    assume "next_states_of nfa current symbol \<in> ds"
      and sl: "symbol_loop nfa current symbols
                 (ds, um, AList.update current
                    (AList.update symbol (next_states_of nfa current symbol)
                       (row_get dt current)) dt) = (ds', um', dt')"
    then show ?thesis using Cons.IH [OF sl] by blast
  next
    assume new: "next_states_of nfa current symbol \<notin> ds"
      and sl: "symbol_loop nfa current symbols
                 (insert (next_states_of nfa current symbol) ds,
                  next_states_of nfa current symbol # um,
                  AList.update current
                    (AList.update symbol (next_states_of nfa current symbol)
                       (row_get dt current)) dt) = (ds', um', dt')"
    have "next_states_of nfa current symbol \<in> ds'"
      using symbol_loop_states [OF sl] by blast
    moreover have "set um' = set (next_states_of nfa current symbol # um)
                     \<union> (ds' - insert (next_states_of nfa current symbol) ds)"
      using Cons.IH [OF sl] .
    ultimately show ?thesis using new by auto
  qed
qed

lemma symbol_loop_other_rows:
  "symbol_loop nfa current symbols (ds, um, dt) = (ds', um', dt') \<Longrightarrow> T \<noteq> current
     \<Longrightarrow> row_get dt' T = row_get dt T"
proof (induction symbols arbitrary: ds um dt)
  case Nil
  then show ?case by simp
next
  case (Cons symbol symbols)
  from symbol_loop_cases [OF Cons.prems(1)] show ?case
  proof (elim disjE conjE)
    assume "symbol_loop nfa current symbols (ds, um, dt) = (ds', um', dt')"
    then show ?thesis using Cons.IH Cons.prems(2) by blast
  next
    assume sl: "symbol_loop nfa current symbols
                 (ds, um, AList.update current
                    (AList.update symbol (next_states_of nfa current symbol)
                       (row_get dt current)) dt) = (ds', um', dt')"
    show ?thesis using Cons.IH [OF sl Cons.prems(2)] Cons.prems(2)
      by (simp add: row_get_update)
  next
    assume sl: "symbol_loop nfa current symbols
                 (insert (next_states_of nfa current symbol) ds,
                  next_states_of nfa current symbol # um,
                  AList.update current
                    (AList.update symbol (next_states_of nfa current symbol)
                       (row_get dt current)) dt) = (ds', um', dt')"
    show ?thesis using Cons.IH [OF sl Cons.prems(2)] Cons.prems(2)
      by (simp add: row_get_update)
  qed
qed

lemma symbol_loop_row:
  "symbol_loop nfa current symbols (ds, um, dt) = (ds', um', dt')
     \<Longrightarrow> map_of (row_get dt' current) a
           = (if a \<in> set symbols \<and> next_states_of nfa current a \<noteq> {}
              then Some (next_states_of nfa current a)
              else map_of (row_get dt current) a)"
proof (induction symbols arbitrary: ds um dt)
  case Nil
  then show ?case by simp
next
  case (Cons symbol symbols)
  let ?n = "next_states_of nfa current symbol"
  let ?dt = "AList.update current (AList.update symbol ?n (row_get dt current)) dt"
  have row2: "map_of (row_get ?dt current) a
                = (if a = symbol then Some ?n else map_of (row_get dt current) a)"
    by (simp add: row_get_update update_conv')
  from symbol_loop_cases [OF Cons.prems] show ?case
  proof (elim disjE conjE)
    assume "?n = {}" and "symbol_loop nfa current symbols (ds, um, dt) = (ds', um', dt')"
    then show ?thesis using Cons.IH by auto
  next
    assume ne: "?n \<noteq> {}"
      and sl: "symbol_loop nfa current symbols (ds, um, ?dt) = (ds', um', dt')"
    show ?thesis using Cons.IH [OF sl] row2 ne by auto
  next
    assume ne: "?n \<noteq> {}"
      and sl: "symbol_loop nfa current symbols (insert ?n ds, ?n # um, ?dt) = (ds', um', dt')"
    show ?thesis using Cons.IH [OF sl] row2 ne by auto
  qed
qed

lemma row_correct_mono:
  "row_correct nfa dt ds T \<Longrightarrow> ds \<subseteq> ds' \<Longrightarrow> row_get dt' T = row_get dt T
     \<Longrightarrow> row_correct nfa dt' ds' T"
  unfolding row_correct_def by auto

lemma subset_loop_inv:
  "dfa_inv nfa ds um dt \<Longrightarrow> subset_loop nfa ds um dt = (ds', dt')
     \<Longrightarrow> ds \<subseteq> ds' \<and> dfa_inv nfa ds' [] dt'"
proof (induction nfa ds um dt rule: subset_loop.induct)
  case (1 nfa ds dt)
  then show ?case by simp
next
  case (2 nfa ds current um dt)
  let ?dt0 = "AList.update current [] dt"
  obtain ds1 um1 dt1 where
    sl: "symbol_loop nfa current (NFA.alphabet nfa) (ds, um, ?dt0) = (ds1, um1, dt1)"
    by (metis prod_cases3)
  note st = symbol_loop_states [OF sl]
  note un = symbol_loop_unmarked [OF sl]
  have sub: "ds \<subseteq> ds1" using st by blast
  have old: "set (current # um) \<subseteq> ds"
    and rc: "\<And>T. T \<in> ds - set (current # um) \<Longrightarrow> row_correct nfa dt ds T"
    using "2.prems"(1) unfolding dfa_inv_def by blast+
  have inv1: "dfa_inv nfa ds1 um1 dt1"
    unfolding dfa_inv_def
  proof (intro conjI ballI)
    show "set um1 \<subseteq> ds1" using un old sub by auto
  next
    fix T assume T: "T \<in> ds1 - set um1"
    then have Tds: "T \<in> ds" and Tum: "T \<notin> set um" using un by auto
    show "row_correct nfa dt1 ds1 T"
    proof (cases "T = current")
      case True
      have row: "map_of (row_get dt1 current) a
                   = (if a \<in> set (NFA.alphabet nfa) \<and> next_states_of nfa current a \<noteq> {}
                      then Some (next_states_of nfa current a) else None)" for a
        using symbol_loop_row [OF sl, of a] by (simp add: row_get_update)
      have closed: "next_states_of nfa current a \<in> ds1"
        if "a \<in> set (NFA.alphabet nfa)" and "next_states_of nfa current a \<noteq> {}" for a
        using that st by blast
      show ?thesis unfolding row_correct_def True using row closed by blast
    next
      case False
      then have "T \<in> ds - set (current # um)" using Tds Tum by simp
      then have rcT: "row_correct nfa dt ds T" by (rule rc)
      have rg: "row_get dt1 T = row_get dt T"
        using symbol_loop_other_rows [OF sl False] False by (simp add: row_get_update)
      show ?thesis by (rule row_correct_mono [OF rcT sub rg])
    qed
  qed
  have res: "subset_loop nfa ds1 um1 dt1 = (ds', dt')"
    using "2.prems"(2) sl by simp
  have "ds1 \<subseteq> ds' \<and> dfa_inv nfa ds' [] dt'"
    using "2.IH" [OF sl [symmetric] refl inv1 res] .
  then show ?case using sub by blast
qed

lemma nfa_to_dfa_fields:
  assumes "subset_loop nfa {sc} [sc] [] = (ds, dt)"
    and "sc = epsilon_closure nfa {NFA.start_state nfa}"
  shows "DFA.states (nfa_to_dfa nfa) = ds"
    and "DFA.transitions (nfa_to_dfa nfa) = dt"
    and "DFA.start_state (nfa_to_dfa nfa) = sc"
    and "DFA.alphabet (nfa_to_dfa nfa) = NFA.alphabet nfa"
    and "DFA.accept_states (nfa_to_dfa nfa) = {T \<in> ds. T \<inter> NFA.accept_states nfa \<noteq> {}}"
  using assms by (auto simp: nfa_to_dfa_def Let_def)

lemma nfa_to_dfa_start:
  "DFA.start_state (nfa_to_dfa nfa) = epsilon_closure nfa {NFA.start_state nfa}"
  by (simp add: nfa_to_dfa_def Let_def split: prod.splits)

lemma nfa_to_dfa_alphabet: "DFA.alphabet (nfa_to_dfa nfa) = NFA.alphabet nfa"
  by (simp add: nfa_to_dfa_def Let_def split: prod.splits)

lemma nfa_to_dfa_accept:
  "T \<in> DFA.accept_states (nfa_to_dfa nfa)
     \<longleftrightarrow> T \<in> DFA.states (nfa_to_dfa nfa) \<and> T \<inter> NFA.accept_states nfa \<noteq> {}"
  by (auto simp: nfa_to_dfa_def Let_def split: prod.splits)

lemma nfa_to_dfa_inv:
  "DFA.start_state (nfa_to_dfa nfa) \<in> DFA.states (nfa_to_dfa nfa)
   \<and> (\<forall>T \<in> DFA.states (nfa_to_dfa nfa).
         row_correct nfa (DFA.transitions (nfa_to_dfa nfa)) (DFA.states (nfa_to_dfa nfa)) T)"
proof -
  let ?sc = "epsilon_closure nfa {NFA.start_state nfa}"
  obtain ds dt where sl: "subset_loop nfa {?sc} [?sc] [] = (ds, dt)"
    by (cases "subset_loop nfa {?sc} [?sc] []")
  have "dfa_inv nfa {?sc} [?sc] []" by (simp add: dfa_inv_def)
  then have "{?sc} \<subseteq> ds \<and> dfa_inv nfa ds [] dt" using sl by (rule subset_loop_inv)
  then show ?thesis
    using nfa_to_dfa_fields [OF sl refl] by (simp add: dfa_inv_def)
qed

lemma accepts_loop_run:
  "T \<in> DFA.states (nfa_to_dfa nfa) \<Longrightarrow> accepts_loop (nfa_to_dfa nfa) T w = nfa_run nfa T w"
proof (induction w arbitrary: T)
  case Nil
  then show ?case by (simp add: nfa_to_dfa_accept)
next
  case (Cons a w)
  let ?d = "nfa_to_dfa nfa"
  let ?n = "next_states_of nfa T a"
  have rc: "row_correct nfa (DFA.transitions ?d) (DFA.states ?d) T"
    using nfa_to_dfa_inv [of nfa] Cons.prems by blast
  have look: "map_of (row_get (DFA.transitions ?d) T) a
                = (if a \<in> set (NFA.alphabet nfa) \<and> ?n \<noteq> {} then Some ?n else None)"
    using rc unfolding row_correct_def by blast
  show ?case
  proof (cases "a \<in> set (NFA.alphabet nfa) \<and> ?n \<noteq> {}")
    case True
    then have "?n \<in> DFA.states ?d" using rc unfolding row_correct_def by blast
    then have "accepts_loop ?d ?n w = nfa_run nfa ?n w" by (rule Cons.IH)
    then show ?thesis using True look by (simp add: nfa_to_dfa_alphabet)
  next
    case False
    then show ?thesis using look by (auto simp: nfa_to_dfa_alphabet)
  qed
qed

section \<open>The fragment read as an NFA object\<close>

lemma symbol_of_inj: "inj symbol_of"
  by (auto simp: inj_def symbol_of_def split: option.splits)

lemma map_of_keyed:
  "inj f \<Longrightarrow> map_of (map (\<lambda>x. (f x, g x)) xs) (f y)
                = (if y \<in> set xs then Some (g y) else None)"
  by (induction xs) (auto simp: inj_eq)

lemma map_of_to_row:
  "map_of (to_row es) (symbol_of lab)
     = (if lab \<in> fst ` set es then Some (map snd (filter (\<lambda>e. fst e = lab) es)) else None)"
proof -
  have "map_of (map (\<lambda>x. (symbol_of x, map snd (filter (\<lambda>e. fst e = x) es)))
                 (remdups (map fst es))) (symbol_of lab)
          = (if lab \<in> set (remdups (map fst es))
             then Some (map snd (filter (\<lambda>e. fst e = lab) es)) else None)"
    by (rule map_of_keyed [OF symbol_of_inj])
  then show ?thesis by (simp add: to_row_def)
qed

lemma to_row_targets:
  "(case map_of (to_row es) (symbol_of lab) of None \<Rightarrow> {} | Some ts \<Rightarrow> set ts)
     = {d. (lab, d) \<in> set es}"
  unfolding map_of_to_row by force

lemma row_get_to_NFA:
  "row_get (NFA.transitions (to_NFA (st, acc, tr))) s = to_row (tr_get tr s)"
  by (cases "map_of tr s")
     (simp_all add: to_NFA_def row_get_def tr_get_def map_of_map to_row_def)

lemma eps_targets_to_NFA:
  "set (eps_targets (NFA.transitions (to_NFA (st, acc, tr))) s)
     = {d. (None, d) \<in> set (tr_get tr s)}"
proof -
  have e: "[] = symbol_of None" by (simp add: symbol_of_def)
  have "set (eps_targets (NFA.transitions (to_NFA (st, acc, tr))) s)
          = (case map_of (to_row (tr_get tr s)) (symbol_of None) of
               None \<Rightarrow> {} | Some ts \<Rightarrow> set ts)"
    unfolding eps_targets_def row_get_to_NFA e [symmetric] by (simp split: option.splits)
  then show ?thesis by (simp only: to_row_targets)
qed

lemma eps_edges_to_NFA:
  "nfa_eps_edges (NFA.transitions (to_NFA (st, acc, tr))) = eps_edges tr"
  by (simp add: nfa_eps_edges_def eps_edges_def eps_targets_to_NFA)

lemma epsilon_closure_to_NFA: "epsilon_closure (to_NFA (st, acc, tr)) S = eps_closure S tr"
proof (cases "finite S")
  case True
  then show ?thesis
    by (simp add: epsilon_closure_reach eps_closure_reach eps_edges_to_NFA)
next
  case False
  then show ?thesis by (simp add: epsilon_closure_infinite eps_closure_infinite)
qed

lemma move_alt: "move S c tr = (\<Union>s \<in> S. {d. (Some c, d) \<in> set (tr_get tr s)})"
  unfolding move_def by force

lemma finite_move: "finite (move S c tr)"
proof -
  have "move S c tr \<subseteq> tr_targets tr"
    unfolding move_alt using tr_get_targets by force
  then show ?thesis using finite_tr_targets by (rule finite_subset)
qed

lemma next_states_to_NFA:
  "next_states_of (to_NFA (st, acc, tr)) T [c] = eps_closure (move T c tr) tr"
proof -
  let ?nfa = "to_NFA (st, acc, tr)"
  let ?E = "eps_edges tr"
  have cl: "epsilon_closure ?nfa {t} = ?E\<^sup>* `` {t}" for t
    by (simp add: epsilon_closure_to_NFA eps_closure_reach)
  have c: "[c] = symbol_of (Some c)" by (simp add: symbol_of_def)
  have inner: "(case map_of (row_get (NFA.transitions ?nfa) s) [c] of
                  None \<Rightarrow> {}
                | Some targets \<Rightarrow> (\<Union>target \<in> set targets. epsilon_closure ?nfa {target}))
               = ?E\<^sup>* `` {d. (Some c, d) \<in> set (tr_get tr s)}" for s
  proof -
    let ?es = "tr_get tr s"
    have m: "map_of (row_get (NFA.transitions ?nfa) s) [c]
               = (if Some c \<in> fst ` set ?es
                  then Some (map snd (filter (\<lambda>e. fst e = Some c) ?es)) else None)"
      unfolding row_get_to_NFA c by (rule map_of_to_row)
    show ?thesis
    proof (cases "Some c \<in> fst ` set ?es")
      case True
      have "set (map snd (filter (\<lambda>e. fst e = Some c) ?es)) = {d. (Some c, d) \<in> set ?es}"
        by force
      then show ?thesis using True m cl by auto
    next
      case False
      then have "{d. (Some c, d) \<in> set ?es} = {}" by force
      then show ?thesis using False m by simp
    qed
  qed
  have "next_states_of ?nfa T [c] = (\<Union>s \<in> T. ?E\<^sup>* `` {d. (Some c, d) \<in> set (tr_get tr s)})"
    unfolding next_states_of_def inner ..
  also have "\<dots> = ?E\<^sup>* `` (move T c tr)"
    unfolding move_alt by blast
  also have "\<dots> = eps_closure (move T c tr) tr"
    by (simp add: eps_closure_reach finite_move)
  finally show ?thesis .
qed

lemma edge_symbols_mem: "[c] \<in> set (edge_symbols es) \<longleftrightarrow> Some c \<in> fst ` set es"
  by (induction es) (auto simp: edge_symbols_def split: option.splits)

lemma alphabet_to_NFA:
  "[c] \<in> set (NFA.alphabet (to_NFA (st, acc, tr))) \<longleftrightarrow> Some c \<in> tr_labels tr"
proof -
  have "[c] \<in> set (NFA.alphabet (to_NFA (st, acc, tr)))
          \<longleftrightarrow> (\<exists>p \<in> set tr. [c] \<in> set (edge_symbols (snd p)))"
    by (simp add: to_NFA_def case_prod_beta)
  also have "\<dots> \<longleftrightarrow> (\<exists>p \<in> set tr. Some c \<in> fst ` set (snd p))"
    by (simp add: edge_symbols_mem)
  also have "\<dots> \<longleftrightarrow> Some c \<in> tr_labels tr"
    unfolding tr_labels_def by force
  finally show ?thesis .
qed

lemma matches_loop_run:
  "matches_loop acc tr T w = nfa_run (to_NFA (st, acc, tr)) T (map (\<lambda>c. [c]) w)"
proof (induction w arbitrary: T)
  case Nil
  show ?case by (simp add: to_NFA_def)
next
  case (Cons c w)
  let ?T' = "eps_closure (move T c tr) tr"
  have n: "next_states_of (to_NFA (st, acc, tr)) T [c] = ?T'"
    by (rule next_states_to_NFA)
  show ?case
  proof (cases "Some c \<in> tr_labels tr")
    case True
    then have "[c] \<in> set (NFA.alphabet (to_NFA (st, acc, tr)))"
      by (simp add: alphabet_to_NFA)
    then show ?thesis using n Cons.IH [of ?T'] by (simp add: Let_def)
  next
    case False
    then have "[c] \<notin> set (NFA.alphabet (to_NFA (st, acc, tr)))"
      by (simp add: alphabet_to_NFA)
    moreover have "?T' = {}"
      using False by (simp add: move_no_label eps_closure_empty)
    ultimately show ?thesis by (simp add: Let_def)
  qed
qed

lemma matches_eq_accepts: "matches nfa s = accepts (nfa_to_dfa (to_NFA nfa)) s"
proof -
  obtain st acc tr where nfa: "nfa = (st, acc, tr)" by (metis prod_cases3)
  let ?N = "to_NFA (st, acc, tr)"
  let ?d = "nfa_to_dfa ?N"
  have "NFA.start_state ?N = st" by (simp add: to_NFA_def)
  then have start: "DFA.start_state ?d = eps_closure {st} tr"
    by (simp add: nfa_to_dfa_start epsilon_closure_to_NFA)
  have "DFA.start_state ?d \<in> DFA.states ?d"
    using nfa_to_dfa_inv [of ?N] by blast
  then have "accepts ?d s = nfa_run ?N (DFA.start_state ?d) (map (\<lambda>c. [c]) s)"
    unfolding accepts_def by (rule accepts_loop_run)
  also have "\<dots> = matches_loop acc tr (eps_closure {st} tr) s"
    unfolding start by (rule matches_loop_run [symmetric])
  finally show ?thesis by (simp add: nfa matches_def)
qed

text \<open>
  C3. Simulation and execution agree: for every pattern that compiles to a fragment
  and every input string, NFA simulation by \<open>matches\<close> on the fragment and
  \<open>DFA.accepts\<close> on the DFA that \<open>nfa_to_dfa\<close> builds from the fragment, read as an NFA
  object, return the same boolean.
\<close>

theorem simulation_agrees_with_dfa:
  "compile p = Inr nfa \<Longrightarrow> matches nfa s = accepts (nfa_to_dfa (to_NFA nfa)) s"
  by (rule matches_eq_accepts)

theorem simulation_agrees_with_dfa_witness:
  "compile ''a|b'' = Inr a_or_b
   \<and> matches a_or_b ''b'' = accepts (nfa_to_dfa (to_NFA a_or_b)) ''b''
   \<and> matches a_or_b ''b''
   \<and> matches a_or_b ''ab'' = accepts (nfa_to_dfa (to_NFA a_or_b)) ''ab''
   \<and> \<not> matches a_or_b ''ab''"
proof -
  have c: "compile ''a|b'' = Inr a_or_b" by code_simp
  have m: "matches a_or_b ''b''" by code_simp
  have n: "\<not> matches a_or_b ''ab''" by code_simp
  show ?thesis
    using simulation_agrees_with_dfa [OF c, of "''b''"]
      simulation_agrees_with_dfa [OF c, of "''ab''"] c m n
    by simp
qed

end
